theory Spec2Isabelle
  imports Complex_Main "HOL-Library.Char_ord" "HOL-Library.List_Lexorder"
begin

section \<open>Python strings\<close>

text \<open>
  A Python \<open>str\<close> is a sequence of Unicode code points, and \<open>len\<close> counts code points.
  A text is therefore a list of code points (natural numbers); \<open>u\<close> embeds an ASCII
  literal. File names, column names and provider names, which the code only compares,
  splits at ASCII characters and concatenates, are plain \<open>string\<close>s.
\<close>

type_synonym ustr = "nat list"

definition u :: "string \<Rightarrow> ustr" where
  "u s = map of_char s"

text \<open>
  \<open>str.isspace\<close>, which is also the white-space class of \<open>re\<close> on \<open>str\<close> patterns and the
  set that \<open>str.strip()\<close> removes: the 29 white-space code points of the Unicode database.
\<close>

definition is_space :: "nat \<Rightarrow> bool" where
  "is_space c \<longleftrightarrow>
     (0x09 \<le> c \<and> c \<le> 0x0D) \<or> (0x1C \<le> c \<and> c \<le> 0x20) \<or> c = 0x85 \<or> c = 0xA0 \<or>
     c = 0x1680 \<or> (0x2000 \<le> c \<and> c \<le> 0x200A) \<or> c = 0x2028 \<or> c = 0x2029 \<or>
     c = 0x202F \<or> c = 0x205F \<or> c = 0x3000"

definition py_strip :: "ustr \<Rightarrow> ustr" where
  "py_strip s = rev (dropWhile is_space (rev (dropWhile is_space s)))"

text \<open>\<open>re.search\<close> of a literal: the literal occurs somewhere in the text.\<close>

fun occurs :: "ustr \<Rightarrow> ustr \<Rightarrow> bool" where
  "occurs pat [] = (pat = [])"
| "occurs pat (c # cs) = (take (length pat) (c # cs) = pat \<or> occurs pat cs)"

text \<open>
  \<open>re.sub\<close> of a repeated character class (one or more white-space characters, or
  one or more blanks and tabs) by a space: every maximal run of characters of the class
  becomes one space.
\<close>

function collapse_runs :: "(nat \<Rightarrow> bool) \<Rightarrow> ustr \<Rightarrow> ustr" where
  "collapse_runs P [] = []"
| "collapse_runs P (c # cs) =
     (if P c then 0x20 # collapse_runs P (dropWhile P cs) else c # collapse_runs P cs)"
  by pat_completeness auto
termination
  by (relation "measure (\<lambda>(P, s). length s)")
     (auto simp: le_imp_less_Suc length_dropWhile_le)

section \<open>core/config.py: the validation constants\<close>

definition MIN_TRANSLATION_LENGTH :: nat where
  "MIN_TRANSLATION_LENGTH = 1"

definition MAX_LENGTH_RATIO :: rat where
  "MAX_LENGTH_RATIO = 3"

definition MIN_LENGTH_RATIO :: rat where
  "MIN_LENGTH_RATIO = 3 / 10"

definition MIN_ARABIC_CHAR_RATIO :: rat where
  "MIN_ARABIC_CHAR_RATIO = 1 / 2"

section \<open>core/postprocessing.py\<close>

text \<open>
  The character class of the Arabic blocks: U+0600 to U+06FF, U+0750 to U+077F and
  U+08A0 to U+08FF.
\<close>

definition is_arabic :: "nat \<Rightarrow> bool" where
  "is_arabic c \<longleftrightarrow>
     (0x600 \<le> c \<and> c \<le> 0x6FF) \<or> (0x750 \<le> c \<and> c \<le> 0x77F) \<or> (0x8A0 \<le> c \<and> c \<le> 0x8FF)"

definition has_arabic_chars :: "ustr \<Rightarrow> bool" where
  "has_arabic_chars text = list_ex is_arabic text"

text \<open>
  Python divides two integers into a float; the model divides them exactly, as a rational.
  The comparisons against 0.5, 0.3 and 3.0 made on the quotient come out the same for
  every text shorter than \<open>10^15\<close> characters, since rounding to the nearest float is
  monotone and a quotient of two such lengths that differs from the bound differs from it
  by more than a rounding error.
\<close>

definition get_arabic_char_ratio :: "ustr \<Rightarrow> rat" where
  "get_arabic_char_ratio text =
     (if text = [] then 0
      else
        let arabic_chars = length (filter is_arabic text);
            total_chars = length (filter (\<lambda>c. \<not> is_space c) text)
        in of_nat arabic_chars / of_nat (max total_chars 1))"

text \<open>
  The three patterns, each a list of alternatives, as the code points of the source file:
  A-tilde followed by e-acute's, e-grave's, a-grave's (a plain space) or c-cedilla's second
  byte; a-circumflex, euro sign and one of trade mark, oe ligature or the replacement
  character; the replacement character alone.
\<close>

definition mojibake_patterns :: "ustr list list" where
  "mojibake_patterns =
     [[[0xC3, 0xA9], [0xC3, 0xA8], [0xC3, 0x20], [0xC3, 0xA7]],
      [[0xE2, 0x20AC, 0x2122], [0xE2, 0x20AC, 0x153], [0xE2, 0x20AC, 0xFFFD]],
      [[0xFFFD]]]"

definition has_mojibake :: "ustr \<Rightarrow> bool" where
  "has_mojibake text =
     list_ex (\<lambda>pattern. list_ex (\<lambda>alt. occurs alt text) pattern) mojibake_patterns"

text \<open>
  \<open>checks\<close> is a dict filled in a fixed order: an association list. \<open>is_valid\<close> is
  \<open>all(checks.values())\<close>.
\<close>

definition validate_translation :: "ustr \<Rightarrow> ustr \<Rightarrow> bool \<times> (string \<times> bool) list" where
  "validate_translation original translated =
     (let checks =
        [(''not_empty'', MIN_TRANSLATION_LENGTH \<le> length (py_strip translated)),
         (''has_arabic'', has_arabic_chars translated),
         (''arabic_ratio_ok'', MIN_ARABIC_CHAR_RATIO \<le> get_arabic_char_ratio translated),
         (''reasonable_length'',
            if length original > 0
            then (let length_ratio = (of_nat (length translated) :: rat) / of_nat (length original)
                  in MIN_LENGTH_RATIO \<le> length_ratio \<and> length_ratio \<le> MAX_LENGTH_RATIO)
            else True),
         (''no_encoding_errors'', \<not> has_mojibake translated)]
      in (list_all snd checks, checks))"

text \<open>
  \<open>clean_arabic_text\<close>: the four alef forms become the bare alef, teh marbuta is replaced
  by itself, white-space runs become one space, and the ends are stripped.
\<close>

definition normalize_alef :: "nat \<Rightarrow> nat" where
  "normalize_alef c = (if c \<in> set [0x625, 0x623, 0x622, 0x627] then 0x627 else c)"

definition normalize_teh_marbuta :: "nat \<Rightarrow> nat" where
  "normalize_teh_marbuta c = (if c = 0x629 then 0x629 else c)"

definition clean_arabic_text :: "ustr \<Rightarrow> ustr" where
  "clean_arabic_text text =
     (if text = [] then []
      else py_strip (collapse_runs is_space (map normalize_teh_marbuta (map normalize_alef text))))"

definition postprocess_translation :: "ustr \<Rightarrow> ustr" where
  "postprocess_translation translated = clean_arabic_text translated"

section \<open>core/preprocessing.py\<close>

text \<open>
  \<open>PROVIDER_TERMS\<close> of core/config.py, a dict in insertion order; keys and replacements
  are ASCII.
\<close>

definition PROVIDER_TERMS :: "(string \<times> string) list" where
  "PROVIDER_TERMS =
     [(''ChatGPT'', ''the AI assistant''),
      (''chatgpt'', ''the AI assistant''),
      (''Chat GPT'', ''the AI assistant''),
      (''OpenAI'', ''the AI provider''),
      (''openai'', ''the AI provider''),
      (''OpenAI's'', ''the AI provider's''),
      (''GPT-4'', ''the advanced language model''),
      (''GPT-3.5'', ''the language model''),
      (''GPT-3'', ''the language model''),
      (''gpt-4'', ''the advanced language model''),
      (''gpt-3.5'', ''the language model''),
      (''OpenAI API'', ''the AI API''),
      (''ChatGPT API'', ''the AI API'')]"

text \<open>\<open>dict.update\<close>: a key already present keeps its place and takes the new value.\<close>

fun dict_update :: "'k \<Rightarrow> 'v \<Rightarrow> ('k \<times> 'v) list \<Rightarrow> ('k \<times> 'v) list" where
  "dict_update k v [] = [(k, v)]"
| "dict_update k v (p # ps) = (if fst p = k then (k, v) # ps else p # dict_update k v ps)"

text \<open>
  Matching under \<open>re.IGNORECASE\<close>, for an ASCII character \<open>p\<close> of the pattern: a letter
  matches its two ASCII cases and the code points Python folds onto it (dotted capital I
  and dotless i for i, long s for s, the Kelvin sign for k); any other character matches
  itself only.
\<close>

definition ascii_lower :: "nat \<Rightarrow> nat" where
  "ascii_lower c = (if 0x41 \<le> c \<and> c \<le> 0x5A then c + 0x20 else c)"

definition ci_eq :: "nat \<Rightarrow> nat \<Rightarrow> bool" where
  "ci_eq p c \<longleftrightarrow>
     c = p \<or>
     (0x61 \<le> ascii_lower p \<and> ascii_lower p \<le> 0x7A \<and>
       (ascii_lower c = ascii_lower p
        \<or> (ascii_lower p = 0x69 \<and> (c = 0x130 \<or> c = 0x131))
        \<or> (ascii_lower p = 0x73 \<and> c = 0x17F)
        \<or> (ascii_lower p = 0x6B \<and> c = 0x212A)))"

fun ci_prefix :: "ustr \<Rightarrow> ustr \<Rightarrow> bool" where
  "ci_prefix [] cs = True"
| "ci_prefix (p # ps) [] = False"
| "ci_prefix (p # ps) (c # cs) = (if ci_eq p c then ci_prefix ps cs else False)"

text \<open>
  A word character of \<open>re\<close> is an alphanumeric character of the Unicode database or the
  underscore. The table of alphanumerics (\<open>str.isalnum\<close>, over 130000 code points) belongs
  to the Python runtime, not to the repository: it is the parameter \<open>alnum\<close>.
  \<open>ascii_alnum\<close> is the table restricted to ASCII, for texts that are ASCII.
  A word boundary lies between two positions of which exactly one holds a word character;
  \<open>None\<close> is the position before the first or after the last character.
\<close>

definition ascii_alnum :: "nat \<Rightarrow> bool" where
  "ascii_alnum c \<longleftrightarrow>
     (0x30 \<le> c \<and> c \<le> 0x39) \<or> (0x41 \<le> c \<and> c \<le> 0x5A) \<or> (0x61 \<le> c \<and> c \<le> 0x7A)"

definition is_word :: "(nat \<Rightarrow> bool) \<Rightarrow> nat option \<Rightarrow> bool" where
  "is_word alnum pos = (case pos of None \<Rightarrow> False | Some c \<Rightarrow> alnum c \<or> c = 0x5F)"

definition boundary :: "(nat \<Rightarrow> bool) \<Rightarrow> nat option \<Rightarrow> nat option \<Rightarrow> bool" where
  "boundary alnum before after \<longleftrightarrow> is_word alnum before \<noteq> is_word alnum after"

definition first_char :: "ustr \<Rightarrow> nat option" where
  "first_char cs = (case cs of [] \<Rightarrow> None | c # _ \<Rightarrow> Some c)"

text \<open>
  The pattern, a word boundary, the escaped term and a word boundary, matched at the
  start of \<open>text\<close>, the character before it being \<open>prev\<close>; the three parts are tried
  in order.
\<close>

definition term_matches :: "(nat \<Rightarrow> bool) \<Rightarrow> ustr \<Rightarrow> nat option \<Rightarrow> ustr \<Rightarrow> bool" where
  "term_matches alnum pat prev text =
     (if boundary alnum prev (first_char text) then
        if ci_prefix pat text then
          boundary alnum (first_char (rev (take (length pat) text)))
            (first_char (drop (length pat) text))
        else False
      else False)"

text \<open>
  \<open>re.sub(pattern, replacement, text, flags=re.IGNORECASE)\<close> for that pattern: the text is
  scanned from the left; a match is replaced and the scan goes on behind it. The terms
  are not empty (an empty one is left alone here) and the replacements hold no backslash.
\<close>

function sub_term :: "(nat \<Rightarrow> bool) \<Rightarrow> ustr \<Rightarrow> ustr \<Rightarrow> nat option \<Rightarrow> ustr \<Rightarrow> ustr" where
  "sub_term alnum pat repl prev [] = []"
| "sub_term alnum pat repl prev (c # cs) =
     (if pat \<noteq> [] \<and> term_matches alnum pat prev (c # cs)
      then repl @ sub_term alnum pat repl (first_char (rev (take (length pat) (c # cs))))
                    (drop (length pat) (c # cs))
      else c # sub_term alnum pat repl (Some c) cs)"
  by pat_completeness auto
termination
  by (relation "measure (\<lambda>(alnum, pat, repl, prev, text). length text)") auto

definition normalize_provider_terms ::
    "(nat \<Rightarrow> bool) \<Rightarrow> ustr \<Rightarrow> (string \<times> string) list option \<Rightarrow> ustr" where
  "normalize_provider_terms alnum text custom_mappings =
     (let mappings =
            (case custom_mappings of
               None \<Rightarrow> PROVIDER_TERMS
             | Some custom \<Rightarrow> fold (\<lambda>(k, v). dict_update k v) custom PROVIDER_TERMS);
          sorted_terms = sort_key (\<lambda>x. - int (length (fst x))) mappings
      in fold (\<lambda>(original, replacement) normalized_text.
                 sub_term alnum (u original) (u replacement) None normalized_text)
           sorted_terms text)"

definition is_control :: "nat \<Rightarrow> bool" where
  "is_control c \<longleftrightarrow>
     c \<le> 0x08 \<or> (0x0B \<le> c \<and> c \<le> 0x0C) \<or> (0x0E \<le> c \<and> c \<le> 0x1F) \<or> (0x7F \<le> c \<and> c \<le> 0x9F)"

definition is_blank :: "nat \<Rightarrow> bool" where
  "is_blank c \<longleftrightarrow> c = 0x20 \<or> c = 0x09"

text \<open>
  The substitution of a newline, any white space and a newline by two newlines. The
  white space is matched greedily, so a match runs from a newline to the last newline of
  the white-space run that follows it.
\<close>

function collapse_blank_lines :: "ustr \<Rightarrow> ustr" where
  "collapse_blank_lines [] = []"
| "collapse_blank_lines (c # cs) =
     (if c = 0x0A \<and> 0x0A \<in> set (takeWhile is_space cs)
      then 0x0A # 0x0A #
             collapse_blank_lines
               (rev (takeWhile (\<lambda>x. x \<noteq> 0x0A) (rev (takeWhile is_space cs)))
                @ dropWhile is_space cs)
      else c # collapse_blank_lines cs)"
  by pat_completeness auto
termination
proof (relation "measure length")
  show "wf (measure length)"
    by simp
next
  fix c :: nat and cs :: ustr
  have "length (takeWhile (\<lambda>x. x \<noteq> 0x0A) (rev (takeWhile is_space cs)))
          \<le> length (takeWhile is_space cs)"
    using length_takeWhile_le [of "\<lambda>x. x \<noteq> 0x0A" "rev (takeWhile is_space cs)"] by simp
  moreover have "length (takeWhile is_space cs) + length (dropWhile is_space cs) = length cs"
    by (metis length_append takeWhile_dropWhile_id)
  ultimately
  show "(rev (takeWhile (\<lambda>x. x \<noteq> 0x0A) (rev (takeWhile is_space cs))) @ dropWhile is_space cs,
         c # cs) \<in> measure length"
    by simp
next
  fix c :: nat and cs :: ustr
  show "(cs, c # cs) \<in> measure length"
    by simp
qed

definition clean_text :: "ustr \<Rightarrow> ustr" where
  "clean_text text =
     (if text = [] then []
      else py_strip (collapse_blank_lines (collapse_runs is_blank
             (filter (\<lambda>c. \<not> is_control c) text))))"

definition preprocess_for_translation :: "(nat \<Rightarrow> bool) \<Rightarrow> ustr \<Rightarrow> bool \<Rightarrow> ustr" where
  "preprocess_for_translation alnum text normalize_terms =
     (let text = clean_text text
      in if normalize_terms then normalize_provider_terms alnum text None else text)"

section \<open>core/rate_limiter.py\<close>

text \<open>The exceptions the modelled code can raise.\<close>

datatype py_error = IndexError | KeyError | ValueError | ZeroDivisionError | AttributeError

text \<open>
  The limiter holds the configured rate and the deque of timestamps, oldest first. A
  timestamp is a reading of \<open>time.time()\<close>, a number of seconds; the model computes with
  them exactly. The lock plays no part in a single thread of control.
\<close>

record rate_limiter =
  rpm :: int
  interval :: rat
  timestamps :: "rat list"

definition RateLimiter :: "int \<Rightarrow> py_error + rate_limiter" where
  "RateLimiter requests_per_minute =
     (if requests_per_minute = 0 then Inl ZeroDivisionError
      else Inr \<lparr>rpm = requests_per_minute, interval = 60 / of_int requests_per_minute,
                timestamps = []\<rparr>)"

text \<open>
  The loop \<open>while self.timestamps and now - self.timestamps[0] > 60: popleft()\<close>.
\<close>

fun evict :: "rat \<Rightarrow> rat list \<Rightarrow> rat list" where
  "evict now [] = []"
| "evict now (t # ts) = (if now - t > 60 then evict now ts else t # ts)"

text \<open>
  \<open>acquire\<close> reads the clock once (\<open>now\<close>) and, when it has slept, once more: \<open>after d\<close>
  is the reading taken when \<open>time.sleep(d)\<close> has returned. It returns what it raised or
  the duration it passed to \<open>time.sleep\<close> (\<open>None\<close> when it did not sleep), and the limiter
  as the call leaves it. With a rate below 1 and an empty deque \<open>self.timestamps[0]\<close>
  raises.
\<close>

definition acquire ::
    "rate_limiter \<Rightarrow> rat \<Rightarrow> (rat \<Rightarrow> rat) \<Rightarrow> (py_error + rat option) \<times> rate_limiter" where
  "acquire rl now after =
     (let ts = evict now (timestamps rl) in
      if rpm rl \<le> int (length ts) then
        (case ts of
           [] \<Rightarrow> (Inl IndexError, rl\<lparr>timestamps := ts\<rparr>)
         | t0 # _ \<Rightarrow>
             let sleep_time = 60 - (now - t0) in
             if sleep_time > 0
             then (let now = after sleep_time
                   in (Inr (Some sleep_time), rl\<lparr>timestamps := evict now ts @ [now]\<rparr>))
             else (Inr None, rl\<lparr>timestamps := ts @ [now]\<rparr>))
      else (Inr None, rl\<lparr>timestamps := ts @ [now]\<rparr>))"

definition get_wait_time :: "rate_limiter \<Rightarrow> rat \<Rightarrow> (py_error + rat) \<times> rate_limiter" where
  "get_wait_time rl now =
     (let ts = evict now (timestamps rl) in
      if rpm rl \<le> int (length ts) then
        (case ts of
           [] \<Rightarrow> (Inl IndexError, rl\<lparr>timestamps := ts\<rparr>)
         | t0 # _ \<Rightarrow> (Inr (max 0 (60 - (now - t0))), rl\<lparr>timestamps := ts\<rparr>))
      else (Inr 0, rl\<lparr>timestamps := ts\<rparr>))"

section \<open>The world outside the pipeline\<close>

text \<open>
  What the pipeline does to the outside is recorded as a trace of events, oldest first:
  readings of the clock by the rate limiter, the limiter's sleeps, the calls of a provider
  (its name, the text and the timeout passed) and the back-off sleeps. Log records are
  not modelled.

  A provider answers with a dict of \<open>success\<close>, \<open>translation\<close> and \<open>error\<close>, or raises.
  What it answers, and what the clock shows, may depend on everything that happened so
  far: both are functions of the trace. The runtime also holds the table of
  alphanumerics and what \<open>pandas.read_csv\<close> makes of a frame written by \<open>to_csv\<close>.
\<close>

datatype event =
    ClockRead rat
  | LimiterSleep rat
  | ApiCall string ustr nat
  | BackoffSleep nat

datatype api_result =
    Returned bool "ustr option" "string option"
  | Raised

text \<open>
  A cell of a frame: a string, an integer, \<open>None\<close>, the float \<open>nan\<close>, or any other object,
  given by what \<open>str\<close> makes of it. A frame has row labels and named columns, every
  column as long as the index.
\<close>

datatype cell = CStr ustr | CInt int | CNone | CNaN | CObj ustr

record dataframe =
  index :: "int list"
  columns :: "(string \<times> cell list) list"

record runtime =
  isalnum :: "nat \<Rightarrow> bool"
  api :: "string \<Rightarrow> ustr \<Rightarrow> nat \<Rightarrow> event list \<Rightarrow> api_result"
  clock :: "event list \<Rightarrow> rat"
  csv_roundtrip :: "dataframe \<Rightarrow> py_error + dataframe"

section \<open>core/pipeline.py: the pipeline object\<close>

definition MAX_RETRIES :: int where
  "MAX_RETRIES = 3"

definition BACKOFF_MULTIPLIER :: nat where
  "BACKOFF_MULTIPLIER = 2"

definition REQUEST_TIMEOUT :: nat where
  "REQUEST_TIMEOUT = 30"

definition CHECKPOINT_INTERVAL :: int where
  "CHECKPOINT_INTERVAL = 50"

text \<open>
  The settings of a pipeline, fixed at construction, and what a run changes: the rate
  limiter (absent when no rate is configured), the statistics, the files of the
  checkpoint directory (each name with what \<open>read_csv\<close> returns for it) and the trace.
  The statistics are the counters and the list of failed cells; the start and end times
  of a run are left out.
\<close>

record pipeline =
  columns_to_translate :: "string list"
  primary_api :: string
  enable_fallback :: bool
  preserve_all_columns :: bool
  normalize_terms :: bool

record run_stats =
  total :: nat
  successful :: nat
  failed :: nat
  nvidia_used :: nat
  fanar_used :: nat
  failed_rows :: "(int \<times> string \<times> string option) list"

record pstate =
  limiter :: "rate_limiter option"
  stats :: run_stats
  checkpoint_dir :: "(string \<times> (py_error + dataframe)) list"
  trace :: "event list"

section \<open>core/pipeline.py: translate_with_retry\<close>

text \<open>
  The rate-limiting step of an attempt: \<open>get_wait_time\<close>, whose value is only logged, then
  \<open>acquire\<close>. Either may raise; the exception is the result.
\<close>

definition rate_limit :: "runtime \<Rightarrow> pstate \<Rightarrow> py_error option \<times> pstate" where
  "rate_limit rt st =
     (case limiter st of
        None \<Rightarrow> (None, st)
      | Some rl \<Rightarrow>
          let now = clock rt (trace st);
              st = st\<lparr>trace := trace st @ [ClockRead now]\<rparr>;
              (wait_time, rl) = get_wait_time rl now;
              st = st\<lparr>limiter := Some rl\<rparr>
          in case wait_time of
               Inl e \<Rightarrow> (Some e, st)
             | Inr _ \<Rightarrow>
                 let now = clock rt (trace st);
                     st = st\<lparr>trace := trace st @ [ClockRead now]\<rparr>;
                     after = (\<lambda>d. clock rt (trace st @ [LimiterSleep d]));
                     (slept, rl) = acquire rl now after;
                     st = st\<lparr>limiter := Some rl\<rparr>
                 in case slept of
                      Inl e \<Rightarrow> (Some e, st)
                    | Inr None \<Rightarrow> (None, st)
                    | Inr (Some d) \<Rightarrow>
                        (None, st\<lparr>trace := trace st @ [LimiterSleep d, ClockRead (after d)]\<rparr>))"

text \<open>
  The body of the \<open>try\<close> of one attempt. Its result is the final translation when the
  function returns from here, and \<open>None\<close> when the attempt fails: the provider reports
  failure, the provider or the limiter raises, the translation is \<open>None\<close> (the validator
  raises on it), or the validator rejects it.
\<close>

definition attempt :: "runtime \<Rightarrow> ustr \<Rightarrow> ustr \<Rightarrow> string \<Rightarrow> pstate \<Rightarrow> ustr option \<times> pstate" where
  "attempt rt text processed_text api_name st =
     (case rate_limit rt st of
        (Some e, st) \<Rightarrow> (None, st)
      | (None, st) \<Rightarrow>
          let result = api rt api_name processed_text REQUEST_TIMEOUT (trace st);
              st = st\<lparr>trace := trace st @ [ApiCall api_name processed_text REQUEST_TIMEOUT]\<rparr>
          in case result of
               Raised \<Rightarrow> (None, st)
             | Returned success translation error \<Rightarrow>
                 if success then
                   (case translation of
                      None \<Rightarrow> (None, st)
                    | Some translation \<Rightarrow>
                        if fst (validate_translation text translation)
                        then (Some (postprocess_translation translation), st)
                        else (None, st))
                 else (None, st))"

text \<open>The loop over \<open>range(max_retries)\<close> for one provider, with the back-off.\<close>

fun retry_loop ::
    "runtime \<Rightarrow> ustr \<Rightarrow> ustr \<Rightarrow> string \<Rightarrow> int \<Rightarrow> nat list \<Rightarrow> pstate \<Rightarrow> ustr option \<times> pstate" where
  "retry_loop rt text processed_text api_name max_retries [] st = (None, st)"
| "retry_loop rt text processed_text api_name max_retries (a # as) st =
     (case attempt rt text processed_text api_name st of
        (Some final_translation, st) \<Rightarrow> (Some final_translation, st)
      | (None, st) \<Rightarrow>
          retry_loop rt text processed_text api_name max_retries as
            (if int a < max_retries - 1
             then st\<lparr>trace := trace st @ [BackoffSleep (BACKOFF_MULTIPLIER ^ a)]\<rparr>
             else st))"

text \<open>The loop over the providers, and the return after it.\<close>

fun api_loop ::
    "runtime \<Rightarrow> ustr \<Rightarrow> ustr \<Rightarrow> int \<Rightarrow> string list \<Rightarrow> pstate
     \<Rightarrow> (ustr option \<times> string \<times> string option) \<times> pstate" where
  "api_loop rt text processed_text max_retries [] st =
     ((None, ''failed'', Some ''All API attempts exhausted''), st)"
| "api_loop rt text processed_text max_retries (api_name # apis) st =
     (case retry_loop rt text processed_text api_name max_retries [0..<nat max_retries] st of
        (Some final_translation, st) \<Rightarrow> ((Some final_translation, api_name, None), st)
      | (None, st) \<Rightarrow> api_loop rt text processed_text max_retries apis st)"

definition api_order :: "pipeline \<Rightarrow> string list" where
  "api_order pl =
     (if primary_api pl = ''nvidia''
      then [''nvidia''] @ (if enable_fallback pl then [''fanar''] else [])
      else [''fanar''] @ (if enable_fallback pl then [''nvidia''] else []))"

definition translate_with_retry ::
    "runtime \<Rightarrow> pipeline \<Rightarrow> ustr \<Rightarrow> int \<Rightarrow> pstate
     \<Rightarrow> (ustr option \<times> string \<times> string option) \<times> pstate" where
  "translate_with_retry rt pl text max_retries st =
     (let processed_text = preprocess_for_translation (isalnum rt) text (normalize_terms pl)
      in api_loop rt text processed_text max_retries (api_order pl) st)"

section \<open>pandas frames\<close>

text \<open>
  The operations of pandas that the pipeline uses, on frames whose row labels are
  distinct integers: \<open>len(df)\<close>, \<open>df[name] = scalar\<close>, \<open>df[name] = series\<close>,
  \<open>df.at[label, name] = value\<close>, \<open>df.iloc[i]\<close> and \<open>df.iloc[:k]\<close>.

  Assigning a scalar fills the column, a new column going last. Assigning a series
  aligns it on the row labels of the frame: a row whose label the series lacks gets
  \<open>nan\<close>; a frame without rows first takes the index of the series. Setting a cell at a
  label the frame lacks first appends a row of \<open>nan\<close>. \<open>iloc\<close> is positional, a negative
  position counting from the end.
\<close>

definition nrows :: "dataframe \<Rightarrow> nat" where
  "nrows df = length (index df)"

definition column_names :: "dataframe \<Rightarrow> string list" where
  "column_names df = map fst (columns df)"

definition empty_frame :: dataframe where
  "empty_frame = \<lparr>index = [], columns = []\<rparr>"

definition set_column_scalar :: "dataframe \<Rightarrow> string \<Rightarrow> cell \<Rightarrow> dataframe" where
  "set_column_scalar df name v =
     df\<lparr>columns := dict_update name (replicate (nrows df) v) (columns df)\<rparr>"

definition align :: "int list \<Rightarrow> cell list \<Rightarrow> int list \<Rightarrow> cell list" where
  "align labels values idx =
     map (\<lambda>label. case map_of (zip labels values) label of None \<Rightarrow> CNaN | Some v \<Rightarrow> v) idx"

definition set_column_series :: "dataframe \<Rightarrow> string \<Rightarrow> int list \<Rightarrow> cell list \<Rightarrow> dataframe" where
  "set_column_series df name labels values =
     (let df = (if index df = [] \<and> values \<noteq> []
                then \<lparr>index = labels,
                      columns = map (\<lambda>(n, vs). (n, replicate (length labels) CNaN)) (columns df)\<rparr>
                else df)
      in df\<lparr>columns := dict_update name (align labels values (index df)) (columns df)\<rparr>)"

fun index_of :: "'a \<Rightarrow> 'a list \<Rightarrow> nat" where
  "index_of x [] = 0"
| "index_of x (y # ys) = (if x = y then 0 else Suc (index_of x ys))"

definition set_at :: "dataframe \<Rightarrow> int \<Rightarrow> string \<Rightarrow> cell \<Rightarrow> dataframe" where
  "set_at df idx name v =
     (let df = (if idx \<in> set (index df) then df
                else \<lparr>index = index df @ [idx],
                      columns = map (\<lambda>(n, vs). (n, vs @ [CNaN])) (columns df)\<rparr>);
          df = (if name \<in> set (column_names df) then df
                else df\<lparr>columns := columns df @ [(name, replicate (nrows df) CNaN)]\<rparr>);
          pos = index_of idx (index df)
      in df\<lparr>columns := map (\<lambda>(n, vs). if n = name then (n, vs[pos := v]) else (n, vs))
                            (columns df)\<rparr>)"

definition iloc :: "dataframe \<Rightarrow> int \<Rightarrow> py_error + (string \<times> cell) list" where
  "iloc df idx =
     (let n = int (nrows df); j = (if idx < 0 then n + idx else idx)
      in if 0 \<le> j \<and> j < n
         then Inr (map (\<lambda>(name, vs). (name, vs ! nat j)) (columns df))
         else Inl IndexError)"

definition iloc_head :: "dataframe \<Rightarrow> int \<Rightarrow> dataframe" where
  "iloc_head df k =
     (let m = nat (if k < 0 then int (nrows df) + k else k)
      in \<lparr>index = take m (index df),
          columns = map (\<lambda>(name, vs). (name, take m vs)) (columns df)\<rparr>)"

text \<open>\<open>str\<close> of a cell; integers are written in decimal.\<close>

function str_nat :: "nat \<Rightarrow> string" where
  "str_nat n =
     (if n < 10 then [''0123456789'' ! n]
      else str_nat (n div 10) @ [''0123456789'' ! (n mod 10)])"
  by pat_completeness auto
termination
  by (relation "measure id") auto

definition str_int :: "int \<Rightarrow> string" where
  "str_int i = (if i < 0 then CHR ''-'' # str_nat (nat (- i)) else str_nat (nat i))"

fun py_str :: "cell \<Rightarrow> ustr" where
  "py_str (CStr s) = s"
| "py_str (CInt i) = u (str_int i)"
| "py_str CNone = u ''None''"
| "py_str CNaN = u ''nan''"
| "py_str (CObj s) = s"

section \<open>core/pipeline.py: checkpoints\<close>

text \<open>
  Names of files: the final component of a path, \<open>Path.stem\<close> (the name without its
  last suffix), \<open>str.split\<close> at a separator, and \<open>int\<close> of a string (white space around
  an optional sign and decimal digits).
\<close>

definition basename :: "string \<Rightarrow> string" where
  "basename path = rev (takeWhile (\<lambda>c. c \<noteq> CHR ''/'') (rev path))"

definition stem :: "string \<Rightarrow> string" where
  "stem path =
     (let name = basename path;
          ext = takeWhile (\<lambda>c. c \<noteq> CHR ''.'') (rev name)
      in if CHR ''.'' \<in> set name \<and> ext \<noteq> [] \<and> length ext + 1 < length name
         then take (length name - length ext - 1) name
         else name)"

fun split_on :: "char \<Rightarrow> string \<Rightarrow> string list" where
  "split_on sep [] = [[]]"
| "split_on sep (c # cs) =
     (if c = sep then [] # split_on sep cs
      else (case split_on sep cs of [] \<Rightarrow> [[c]] | part # parts \<Rightarrow> (c # part) # parts))"

definition is_digit :: "char \<Rightarrow> bool" where
  "is_digit c \<longleftrightarrow> c \<in> set ''0123456789''"

definition py_int :: "string \<Rightarrow> py_error + int" where
  "py_int s =
     (let t = rev (dropWhile (\<lambda>c. is_space (of_char c))
                (rev (dropWhile (\<lambda>c. is_space (of_char c)) s)));
          negative = (take 1 t = ''-'');
          digits = (if take 1 t = ''-'' \<or> take 1 t = ''+'' then drop 1 t else t)
      in if digits \<noteq> [] \<and> list_all is_digit digits
         then Inr ((if negative then - 1 else 1)
                   * int (foldl (\<lambda>a c. 10 * a + (of_char c - 48)) 0 digits))
         else Inl ValueError)"

text \<open>
  \<open>glob("checkpoint_*.csv")\<close> in the checkpoint directory, and the file to resume from:
  the named one, or the last of the sorted paths. Paths of one directory are ordered as
  their names are, and strings are ordered lexicographically by code point.
\<close>

definition glob_checkpoints :: "(string \<times> 'a) list \<Rightarrow> string list" where
  "glob_checkpoints files =
     filter (\<lambda>name. 15 \<le> length name \<and> take 11 name = ''checkpoint_''
                    \<and> drop (length name - 4) name = ''.csv'' \<and> CHR ''/'' \<notin> set name)
       (map fst files)"

definition find_checkpoint :: "(string \<times> 'a) list \<Rightarrow> string option \<Rightarrow> string option" where
  "find_checkpoint files checkpoint_name =
     (if checkpoint_name \<noteq> None \<and> checkpoint_name \<noteq> Some [] then checkpoint_name
      else
        let checkpoints = sort (glob_checkpoints files)
        in if checkpoints = [] then None else Some (last checkpoints))"

text \<open>The loop that copies the checkpoint's columns into the result.\<close>

definition copy_columns :: "dataframe \<Rightarrow> dataframe \<Rightarrow> dataframe" where
  "copy_columns checkpoint_df result_df =
     fold (\<lambda>(col, values) result_df.
             if col \<in> set (column_names result_df)
             then set_column_series result_df col (index checkpoint_df) values
             else result_df)
       (columns checkpoint_df) result_df"

definition load_checkpoint ::
    "(string \<times> (py_error + dataframe)) list \<Rightarrow> dataframe \<Rightarrow> string option
     \<Rightarrow> py_error + (dataframe \<times> int)" where
  "load_checkpoint files result_df checkpoint_name =
     (case find_checkpoint files checkpoint_name of
        None \<Rightarrow> Inr (result_df, 0)
      | Some checkpoint_file \<Rightarrow>
          (case map_of files checkpoint_file of
             None \<Rightarrow> Inr (result_df, 0)
           | Some (Inl e) \<Rightarrow> Inl e
           | Some (Inr checkpoint_df) \<Rightarrow>
               let result_df = copy_columns checkpoint_df result_df
               in (case split_on CHR ''_'' (stem checkpoint_file) of
                     part0 # part1 # parts \<Rightarrow>
                       (case py_int part1 of
                          Inl e \<Rightarrow> Inl e
                        | Inr resume_idx \<Rightarrow> Inr (result_df, resume_idx))
                   | _ \<Rightarrow> Inl IndexError)))"

definition save_checkpoint :: "runtime \<Rightarrow> dataframe \<Rightarrow> int \<Rightarrow> pstate \<Rightarrow> pstate" where
  "save_checkpoint rt df current_idx st =
     st\<lparr>checkpoint_dir :=
          dict_update (''checkpoint_'' @ str_int current_idx @ ''.csv'')
            (csv_roundtrip rt (iloc_head df current_idx)) (checkpoint_dir st)\<rparr>"

section \<open>core/pipeline.py: translate_dataset\<close>

text \<open>
  The loop over the columns of one row. A translation counts when it is not \<open>None\<close> and
  not empty. A column the row lacks raises \<open>KeyError\<close>.
\<close>

fun translate_columns ::
    "runtime \<Rightarrow> pipeline \<Rightarrow> (string \<times> cell) list \<Rightarrow> int \<Rightarrow> string list
     \<Rightarrow> dataframe \<times> pstate \<Rightarrow> (py_error + dataframe) \<times> pstate" where
  "translate_columns rt pl row idx [] (result_df, st) = (Inr result_df, st)"
| "translate_columns rt pl row idx (col # cols) (result_df, st) =
     (case map_of row col of
        None \<Rightarrow> (Inl KeyError, st)
      | Some value \<Rightarrow>
          (case translate_with_retry rt pl (py_str value) MAX_RETRIES st of
             ((translation, api_used, error), st) \<Rightarrow>
               if translation \<noteq> None \<and> translation \<noteq> Some [] then
                 translate_columns rt pl row idx cols
                   (set_at (set_at result_df idx (col @ ''_ar'') (CStr (the translation)))
                      idx (col @ ''_api'') (CStr (u api_used)),
                    st\<lparr>stats := (stats st)
                         \<lparr>successful := successful (stats st) + 1,
                          nvidia_used :=
                            nvidia_used (stats st) + (if api_used = ''nvidia'' then 1 else 0),
                          fanar_used :=
                            fanar_used (stats st) + (if api_used = ''fanar'' then 1 else 0)\<rparr>\<rparr>)
               else
                 translate_columns rt pl row idx cols
                   (result_df,
                    st\<lparr>stats := (stats st)
                         \<lparr>failed := failed (stats st) + 1,
                          failed_rows := failed_rows (stats st) @ [(idx, col, error)]\<rparr>\<rparr>)))"

text \<open>The loop over the rows, with the periodic checkpoint.\<close>

fun translate_rows ::
    "runtime \<Rightarrow> pipeline \<Rightarrow> dataframe \<Rightarrow> int list \<Rightarrow> dataframe \<times> pstate
     \<Rightarrow> (py_error + dataframe) \<times> pstate" where
  "translate_rows rt pl df [] (result_df, st) = (Inr result_df, st)"
| "translate_rows rt pl df (idx # idxs) (result_df, st) =
     (case iloc df idx of
        Inl e \<Rightarrow> (Inl e, st)
      | Inr row \<Rightarrow>
          (case translate_columns rt pl row idx (columns_to_translate pl) (result_df, st) of
             (Inl e, st) \<Rightarrow> (Inl e, st)
           | (Inr result_df, st) \<Rightarrow>
               translate_rows rt pl df idxs
                 (result_df,
                  if (idx + 1) mod CHECKPOINT_INTERVAL = 0
                  then save_checkpoint rt result_df (idx + 1) st
                  else st)))"

definition init_result_df :: "pipeline \<Rightarrow> dataframe \<Rightarrow> dataframe" where
  "init_result_df pl df =
     fold (\<lambda>col result_df.
             set_column_scalar (set_column_scalar result_df (col @ ''_ar'') CNone)
               (col @ ''_api'') CNone)
       (columns_to_translate pl)
       (if preserve_all_columns pl then df else empty_frame)"

definition translate_dataset ::
    "runtime \<Rightarrow> pipeline \<Rightarrow> dataframe \<Rightarrow> bool \<Rightarrow> string option \<Rightarrow> pstate
     \<Rightarrow> (py_error + dataframe) \<times> pstate" where
  "translate_dataset rt pl df resume_from_checkpoint checkpoint_name st =
     (let st = st\<lparr>stats := (stats st)\<lparr>total := nrows df\<rparr>\<rparr>;
          result_df = init_result_df pl df
      in case (if resume_from_checkpoint
               then load_checkpoint (checkpoint_dir st) result_df checkpoint_name
               else Inr (result_df, 0)) of
           Inl e \<Rightarrow> (Inl e, st)
         | Inr (result_df, start_idx) \<Rightarrow>
             translate_rows rt pl df [start_idx..int (nrows df) - 1] (result_df, st))"

section \<open>Reading a trace\<close>

text \<open>
  The provider calls of a trace, in order, and the calls together with the back-off
  sleeps. A provider's answer is accepted for a text when it reports success with a
  translation that the validator accepts.
\<close>

fun calls :: "event list \<Rightarrow> (string \<times> ustr \<times> nat) list" where
  "calls [] = []"
| "calls (ApiCall name text timeout # evs) = (name, text, timeout) # calls evs"
| "calls (ev # evs) = calls evs"

fun is_limiter_event :: "event \<Rightarrow> bool" where
  "is_limiter_event (ClockRead t) = True"
| "is_limiter_event (LimiterSleep d) = True"
| "is_limiter_event ev = False"

fun accepted :: "ustr \<Rightarrow> api_result \<Rightarrow> bool" where
  "accepted text (Returned success (Some translation) error) =
     (success \<and> fst (validate_translation text translation))"
| "accepted text result = False"

fun backoffs :: "event list \<Rightarrow> nat list" where
  "backoffs [] = []"
| "backoffs (BackoffSleep d # evs) = d # backoffs evs"
| "backoffs (ev # evs) = backoffs evs"

text \<open>
  \<open>first_valid_wins rt text hist new out\<close>: in the events \<open>new\<close> that follow the history
  \<open>hist\<close>, a provider call whose answer is accepted is the last event, and \<open>out\<close> is the
  postprocessed translation of that answer with the provider's name.
\<close>

definition first_valid_wins ::
    "runtime \<Rightarrow> ustr \<Rightarrow> event list \<Rightarrow> event list \<Rightarrow> (ustr \<times> string) option \<Rightarrow> bool" where
  "first_valid_wins rt text hist new out \<longleftrightarrow>
     (\<forall>pre name x tmo post.
        new = pre @ ApiCall name x tmo # post \<longrightarrow>
        accepted text (api rt name x tmo (hist @ pre)) \<longrightarrow>
        post = [] \<and>
        (\<exists>t e. api rt name x tmo (hist @ pre) = Returned True (Some t) e
               \<and> out = Some (postprocess_translation t, name)))"

text \<open>A limiter that cannot raise: there is none, or its rate is at least 1.\<close>

definition limiter_ok :: "pstate \<Rightarrow> bool" where
  "limiter_ok st = (case limiter st of None \<Rightarrow> True | Some rl \<Rightarrow> 1 \<le> rpm rl)"

text \<open>
  A limiter that raises on every call: its rate is below 1 and it holds no timestamp, so
  \<open>self.timestamps[0]\<close> fails, and nothing is ever recorded.
\<close>

definition limiter_dead :: "pstate \<Rightarrow> bool" where
  "limiter_dead st =
     (case limiter st of None \<Rightarrow> False | Some rl \<Rightarrow> rpm rl \<le> 0 \<and> timestamps rl = [])"

section \<open>The constructor and some runs\<close>

text \<open>
  \<open>TranslationPipeline.__init__\<close> builds a limiter unless the rate is \<open>None\<close> or 0, and
  zeroes the statistics; the checkpoint directory is what the file system holds.
\<close>

definition init_state :: "int option \<Rightarrow> (string \<times> (py_error + dataframe)) list \<Rightarrow> pstate" where
  "init_state rate_limit_rpm files =
     \<lparr>limiter =
        (case rate_limit_rpm of
           None \<Rightarrow> None
         | Some n \<Rightarrow>
             if n = 0 then None
             else (case RateLimiter n of Inl e \<Rightarrow> None | Inr rl \<Rightarrow> Some rl)),
      stats = \<lparr>total = 0, successful = 0, failed = 0, nvidia_used = 0, fanar_used = 0,
                failed_rows = []\<rparr>,
      checkpoint_dir = files,
      trace = []\<rparr>"

text \<open>
  Four runtimes for ASCII source texts, with a clock that advances one second per event:
  providers that always report failure; providers that raise on the first call and then
  answer every call with the Arabic word marhaba; providers that answer every call with
  that word; and a failing nvidia beside a fanar that answers with that word.
\<close>

definition marhaba :: ustr where
  "marhaba = [0x645, 0x631, 0x62D, 0x628, 0x627]"

definition failing_runtime :: runtime where
  "failing_runtime =
     \<lparr>isalnum = ascii_alnum,
      api = (\<lambda>name text timeout hist. Returned False None (Some ''HTTP 503'')),
      clock = (\<lambda>hist. of_nat (length hist)),
      csv_roundtrip = Inr\<rparr>"

definition flaky_runtime :: runtime where
  "flaky_runtime =
     \<lparr>isalnum = ascii_alnum,
      api = (\<lambda>name text timeout hist.
               if calls hist = [] then Raised else Returned True (Some marhaba) None),
      clock = (\<lambda>hist. of_nat (length hist)),
      csv_roundtrip = Inr\<rparr>"

definition arabic_runtime :: runtime where
  "arabic_runtime =
     \<lparr>isalnum = ascii_alnum,
      api = (\<lambda>name text timeout hist. Returned True (Some marhaba) None),
      clock = (\<lambda>hist. of_nat (length hist)),
      csv_roundtrip = Inr\<rparr>"

definition fallback_runtime :: runtime where
  "fallback_runtime =
     \<lparr>isalnum = ascii_alnum,
      api = (\<lambda>name text timeout hist.
               if name = ''nvidia'' then Returned False None (Some ''HTTP 503'')
               else Returned True (Some marhaba) None),
      clock = (\<lambda>hist. of_nat (length hist)),
      csv_roundtrip = Inr\<rparr>"

definition nvidia_pipeline :: "string list \<Rightarrow> bool \<Rightarrow> pipeline" where
  "nvidia_pipeline cols fallback =
     \<lparr>columns_to_translate = cols, primary_api = ''nvidia'', enable_fallback = fallback,
      preserve_all_columns = True, normalize_terms = True\<rparr>"

text \<open>
  A dataset of two rows, and two checkpoints that hold its first row: one written by a
  run that translates the column \<open>text\<close>, one written by a run that translated another
  column.
\<close>

definition two_rows :: dataframe where
  "two_rows = \<lparr>index = [0, 1], columns = [(''text'', [CStr (u ''Hello''), CStr (u ''Hello'')])]\<rparr>"

definition first_row_checkpoint :: dataframe where
  "first_row_checkpoint =
     \<lparr>index = [0],
      columns = [(''text'', [CStr (u ''Hello'')]), (''text_ar'', [CStr marhaba]),
                 (''text_api'', [CStr (u ''nvidia'')])]\<rparr>"

definition other_run_checkpoint :: dataframe where
  "other_run_checkpoint =
     \<lparr>index = [0],
      columns = [(''text'', [CStr (u ''Hello'')]), (''summary_ar'', [CStr marhaba])]\<rparr>"



section \<open>Properties of the validator\<close>

lemma py_strip_Nil: "py_strip [] = []"
  by (simp add: py_strip_def)

lemma has_arabic_chars_iff: "has_arabic_chars t \<longleftrightarrow> (\<exists>c \<in> set t. is_arabic c)"
  by (simp add: has_arabic_chars_def list_ex_iff)

text \<open>
  C3. \<open>validate_translation\<close> accepts exactly when the five checks pass: the stripped
  translation has at least one character, the translation has a character of the Arabic
  blocks, at least half of its non-white-space characters are Arabic, the ratio of the
  lengths lies in [0.3, 3.0] or the original is empty, and no mojibake signature occurs.
  So an empty translation is rejected for every original, and a text without an Arabic
  character is rejected as a translation of itself.
\<close>

theorem validate_translation_five_checks:
  "(fst (validate_translation original translated) \<longleftrightarrow>
      1 \<le> length (py_strip translated)
      \<and> (\<exists>c \<in> set translated. is_arabic c)
      \<and> translated \<noteq> []
      \<and> max (length (filter (\<lambda>c. \<not> is_space c) translated)) 1
           \<le> 2 * length (filter is_arabic translated)
      \<and> (original = [] \<or>
           (3 * length original \<le> 10 * length translated
            \<and> length translated \<le> 3 * length original))
      \<and> \<not> has_mojibake translated)
   \<and> map fst (snd (validate_translation original translated)) =
       [''not_empty'', ''has_arabic'', ''arabic_ratio_ok'', ''reasonable_length'',
        ''no_encoding_errors'']
   \<and> fst (validate_translation original translated) =
       list_all snd (snd (validate_translation original translated))
   \<and> \<not> fst (validate_translation t [])
   \<and> (\<not> has_arabic_chars t \<longrightarrow> \<not> fst (validate_translation t t))"
proof -
  let ?a = "length (filter is_arabic translated)"
  let ?n = "max (length (filter (\<lambda>c. \<not> is_space c) translated)) 1"
  have pos: "0 < (of_nat ?n :: rat)"
    by simp
  have "(1 / 2 \<le> (of_nat ?a :: rat) / of_nat ?n) \<longleftrightarrow> (of_nat ?n :: rat) \<le> 2 * of_nat ?a"
    using pos by (simp add: field_simps)
  also have "\<dots> \<longleftrightarrow> (of_nat ?n :: rat) \<le> of_nat (2 * ?a)"
    by simp
  also have "\<dots> \<longleftrightarrow> ?n \<le> 2 * ?a"
    by (rule of_nat_le_iff)
  finally have ratio: "(1 / 2 \<le> (of_nat ?a :: rat) / of_nat ?n) \<longleftrightarrow> ?n \<le> 2 * ?a" .
  have len: "(3 / 10 \<le> (of_nat (length translated) :: rat) / of_nat (length original)
              \<and> (of_nat (length translated) :: rat) / of_nat (length original) \<le> 3)
            \<longleftrightarrow> (3 * length original \<le> 10 * length translated
                 \<and> length translated \<le> 3 * length original)"
    if "original \<noteq> []"
  proof -
    from that have lpos: "0 < (of_nat (length original) :: rat)"
      by simp
    have a: "(3 / 10 \<le> (of_nat (length translated) :: rat) / of_nat (length original))
          \<longleftrightarrow> (of_nat (3 * length original) :: rat) \<le> of_nat (10 * length translated)"
      using lpos by (simp add: field_simps)
    have b: "((of_nat (length translated) :: rat) / of_nat (length original) \<le> 3)
          \<longleftrightarrow> (of_nat (length translated) :: rat) \<le> of_nat (3 * length original)"
      using lpos by (simp add: field_simps)
    show ?thesis
      unfolding a b of_nat_le_iff ..
  qed
  have main: "fst (validate_translation original translated) \<longleftrightarrow>
      1 \<le> length (py_strip translated)
      \<and> (\<exists>c \<in> set translated. is_arabic c)
      \<and> translated \<noteq> []
      \<and> ?n \<le> 2 * ?a
      \<and> (original = [] \<or>
           (3 * length original \<le> 10 * length translated
            \<and> length translated \<le> 3 * length original))
      \<and> \<not> has_mojibake translated"
  proof (cases "translated = []")
    case True
    then show ?thesis
      by (simp add: validate_translation_def Let_def py_strip_Nil MIN_TRANSLATION_LENGTH_def)
  next
    case False
    show ?thesis
    proof (cases "original = []")
      case True
      with False show ?thesis
        using ratio
        by (simp add: validate_translation_def Let_def MIN_TRANSLATION_LENGTH_def
            MIN_ARABIC_CHAR_RATIO_def get_arabic_char_ratio_def has_arabic_chars_iff)
    next
      case orig: False
      with False show ?thesis
        using ratio len [OF orig]
        by (simp add: validate_translation_def Let_def MIN_TRANSLATION_LENGTH_def
            MIN_ARABIC_CHAR_RATIO_def MIN_LENGTH_RATIO_def MAX_LENGTH_RATIO_def
            get_arabic_char_ratio_def has_arabic_chars_iff)
    qed
  qed
  have names: "map fst (snd (validate_translation original translated)) =
       [''not_empty'', ''has_arabic'', ''arabic_ratio_ok'', ''reasonable_length'',
        ''no_encoding_errors'']"
    by (simp add: validate_translation_def Let_def)
  have all: "fst (validate_translation original translated) =
       list_all snd (snd (validate_translation original translated))"
    by (simp add: validate_translation_def Let_def)
  have empty: "\<not> fst (validate_translation t [])"
    by (simp add: validate_translation_def Let_def py_strip_Nil MIN_TRANSLATION_LENGTH_def)
  have same: "\<not> has_arabic_chars t \<longrightarrow> \<not> fst (validate_translation t t)"
    by (simp add: validate_translation_def Let_def)
  from main names all empty same show ?thesis
    by blast
qed

theorem validate_translation_five_checks_witness:
  "fst (validate_translation (u ''Hello'') [0x645, 0x631, 0x62D, 0x628, 0x627])
   \<and> \<not> has_arabic_chars (u ''Hello'')
   \<and> \<not> fst (validate_translation (u ''Hello'') (u ''Hello''))"
proof -
  have no_arabic: "\<not> has_arabic_chars (u ''Hello'')"
    by (simp add: has_arabic_chars_def u_def is_arabic_def)
  have checks: "1 \<le> length (py_strip [0x645, 0x631, 0x62D, 0x628, 0x627])"
    "\<not> has_mojibake [0x645, 0x631, 0x62D, 0x628, 0x627]"
    by (simp_all add: py_strip_def is_space_def has_mojibake_def mojibake_patterns_def)
  from validate_translation_five_checks
    [of "u ''Hello''" "[0x645, 0x631, 0x62D, 0x628, 0x627]" "u ''Hello''"] no_arabic checks
  show ?thesis
    by (simp add: u_def is_arabic_def is_space_def)
qed

section \<open>Properties of the rate limiter\<close>

lemma evict_dropWhile: "evict now ts = dropWhile (\<lambda>t. now - t > 60) ts"
  by (induction ts) auto

lemma evict_sorted_filter:
  "sorted ts \<Longrightarrow> evict now ts = filter (\<lambda>t. now - t \<le> 60) ts"
proof (induction ts)
  case Nil
  then show ?case by simp
next
  case (Cons t ts)
  show ?case
  proof (cases "now - t > 60")
    case True
    with Cons show ?thesis by simp
  next
    case False
    from Cons.prems have "\<forall>x \<in> set ts. t \<le> x" by simp
    with False have "\<forall>x \<in> set ts. now - x \<le> 60" by fastforce
    then have "filter (\<lambda>t. now - t \<le> 60) ts = ts" by simp
    with False show ?thesis by simp
  qed
qed

lemma evict_idem: "evict now (evict now ts) = evict now ts"
  by (induction ts) auto

lemma evict_suffix: "\<exists>old. ts = old @ evict now ts \<and> (\<forall>t \<in> set old. now - t > 60)"
proof (induction ts)
  case Nil
  then show ?case by simp
next
  case (Cons t ts)
  then obtain old where o: "ts = old @ evict now ts" "\<forall>t \<in> set old. now - t > 60" by blast
  show ?case
  proof (cases "now - t > 60")
    case True
    with o have "t # ts = (t # old) @ evict now (t # ts) \<and> (\<forall>x \<in> set (t # old). now - x > 60)" by simp
    then show ?thesis by blast
  next
    case False
    then have "t # ts = [] @ evict now (t # ts) \<and> (\<forall>x \<in> set []. now - x > 60)" by simp
    then show ?thesis by blast
  qed
qed

lemma evict_head: "evict now ts = t0 # rest \<Longrightarrow> now - t0 \<le> 60"
  by (induction ts) (auto split: if_splits)

lemma evict_sorted: "sorted ts \<Longrightarrow> sorted (evict now ts)"
  by (induction ts) auto

lemma evict_subset: "set (evict now ts) \<subseteq> set ts"
  by (induction ts) auto

text \<open>
  C7. Take a limiter configured at N (at least 1) requests per minute whose timestamps
  are sorted and not later than the clock reading \<open>now\<close>, as they are after any number of
  calls of \<open>acquire\<close> under a clock that does not run backwards (the last conjunct: the
  call keeps them so). When fewer than N timestamps lie in the trailing 60 seconds,
  \<open>acquire\<close> does not sleep and records \<open>now\<close>. Otherwise it sleeps
  \<open>60 - (now - oldest)\<close> seconds, a duration between 0 and 60, re-evicts at the reading
  taken after the sleep (\<open>after wait\<close>) and records that reading; a wait of 0 is no
  sleep at all.
\<close>

theorem acquire_blocks:
  assumes rate: "1 \<le> rpm rl"
    and srt: "sorted (timestamps rl)"
    and past: "\<forall>t \<in> set (timestamps rl). t \<le> now"
  shows "let window = filter (\<lambda>t. now - t \<le> 60) (timestamps rl);
             wait = 60 - (now - hd window);
             now_after = after wait
         in (int (length window) < rpm rl \<longrightarrow>
               acquire rl now after = (Inr None, rl\<lparr>timestamps := window @ [now]\<rparr>))
          \<and> (rpm rl \<le> int (length window) \<longrightarrow>
               0 \<le> wait \<and> wait \<le> 60
               \<and> (0 < wait \<longrightarrow>
                    acquire rl now after =
                      (Inr (Some wait), rl\<lparr>timestamps := evict now_after window @ [now_after]\<rparr>))
               \<and> (wait = 0 \<longrightarrow>
                    acquire rl now after = (Inr None, rl\<lparr>timestamps := window @ [now]\<rparr>)))
          \<and> (now \<le> now_after \<longrightarrow>
               sorted (timestamps (snd (acquire rl now after)))
               \<and> (\<forall>t \<in> set (timestamps (snd (acquire rl now after))). t \<le> now_after)
               \<and> last (timestamps (snd (acquire rl now after))) \<in> {now, now_after})"
proof -
  define window where "window = filter (\<lambda>t. now - t \<le> 60) (timestamps rl)"
  define now_after where "now_after = after (60 - (now - hd window))"
  have ev: "evict now (timestamps rl) = window"
    using srt by (simp add: window_def evict_sorted_filter)
  have wsorted: "sorted window"
    using evict_sorted [OF srt, of now] by (simp add: ev)
  have wpast: "\<forall>t \<in> set window. t \<le> now"
    using past by (simp add: window_def)
  have few: "acquire rl now after = (Inr None, rl\<lparr>timestamps := window @ [now]\<rparr>)"
    if "int (length window) < rpm rl"
    using that by (simp add: acquire_def ev)
  have many: "0 \<le> 60 - (now - hd window) \<and> 60 - (now - hd window) \<le> 60
      \<and> (0 < 60 - (now - hd window) \<longrightarrow>
            acquire rl now after =
              (Inr (Some (60 - (now - hd window))),
               rl\<lparr>timestamps := evict now_after window @ [now_after]\<rparr>))
      \<and> (60 - (now - hd window) = 0 \<longrightarrow>
            acquire rl now after = (Inr None, rl\<lparr>timestamps := window @ [now]\<rparr>))"
    if full: "rpm rl \<le> int (length window)"
  proof -
    from full rate obtain t0 rest where w: "window = t0 # rest"
      by (cases window) auto
    from w ev have "now - t0 \<le> 60"
      using evict_head by blast
    moreover from w wpast have "t0 \<le> now"
      by simp
    ultimately show ?thesis
      using full w by (simp add: acquire_def ev Let_def now_after_def)
  qed
  have inv: "sorted (timestamps (snd (acquire rl now after)))
      \<and> (\<forall>t \<in> set (timestamps (snd (acquire rl now after))). t \<le> now_after)
      \<and> last (timestamps (snd (acquire rl now after))) \<in> {now, now_after}"
    if mono: "now \<le> now_after"
  proof -
    have a: "sorted (window @ [now])"
      using wsorted wpast by (simp add: sorted_append)
    have b: "\<forall>t \<in> set (window @ [now]). t \<le> now_after"
      using wpast mono by auto
    have c: "sorted (evict now_after window @ [now_after])"
      using wsorted wpast mono evict_subset [of now_after window] evict_sorted [of window now_after]
      by (fastforce simp: sorted_append)
    have d: "\<forall>t \<in> set (evict now_after window @ [now_after]). t \<le> now_after"
      using wpast mono evict_subset [of now_after window] by fastforce
    show ?thesis
      using a b c d rate
      by (cases window) (auto simp: acquire_def ev Let_def now_after_def)
  qed
  show ?thesis
    using few many inv
    unfolding Let_def window_def [symmetric] now_after_def [symmetric] by blast
qed


theorem acquire_blocks_witness:
  "acquire \<lparr>rpm = 2, interval = 30, timestamps = [0]\<rparr> 1 (\<lambda>d. 1 + d) =
     (Inr None, \<lparr>rpm = 2, interval = 30, timestamps = [0, 1]\<rparr>)
   \<and> acquire \<lparr>rpm = 2, interval = 30, timestamps = [0, 1]\<rparr> 2 (\<lambda>d. 2 + d) =
     (Inr (Some 58), \<lparr>rpm = 2, interval = 30, timestamps = [0, 1, 60]\<rparr>)
   \<and> acquire \<lparr>rpm = 2, interval = 30, timestamps = [0, 1]\<rparr> 60 (\<lambda>d. 60 + d) =
     (Inr None, \<lparr>rpm = 2, interval = 30, timestamps = [0, 1, 60]\<rparr>)"
  using acquire_blocks [of "\<lparr>rpm = 2, interval = 30, timestamps = [0]\<rparr>" 1 "\<lambda>d. 1 + d"]
    acquire_blocks [of "\<lparr>rpm = 2, interval = 30, timestamps = [0, 1]\<rparr>" 2 "\<lambda>d. 2 + d"]
    acquire_blocks [of "\<lparr>rpm = 2, interval = 30, timestamps = [0, 1]\<rparr>" 60 "\<lambda>d. 60 + d"]
  by (simp add: Let_def)

text \<open>
  C8, as stated, fails. A limiter at 2 requests per minute that has admitted one request
  at time 0 holds the timestamp 0; \<open>get_wait_time\<close> at time 100 pops it, so the limiter's
  timestamps after the call differ from those before it.
\<close>

theorem get_wait_time_mutates:
  "RateLimiter 2 = Inr \<lparr>rpm = 2, interval = 30, timestamps = []\<rparr>
   \<and> acquire \<lparr>rpm = 2, interval = 30, timestamps = []\<rparr> 0 id
       = (Inr None, \<lparr>rpm = 2, interval = 30, timestamps = [0]\<rparr>)
   \<and> get_wait_time \<lparr>rpm = 2, interval = 30, timestamps = [0]\<rparr> 100
       = (Inr 0, \<lparr>rpm = 2, interval = 30, timestamps = []\<rparr>)
   \<and> timestamps (snd (get_wait_time \<lparr>rpm = 2, interval = 30, timestamps = [0]\<rparr> 100))
       \<noteq> timestamps \<lparr>rpm = 2, interval = 30, timestamps = [0]\<rparr>"
  by (simp add: RateLimiter_def acquire_def get_wait_time_def)

lemma evict_fixed: "evict now ts = ts \<longleftrightarrow> ts = [] \<or> now - hd ts \<le> 60"
proof (cases ts)
  case Nil
  then show ?thesis by simp
next
  case (Cons t rest)
  have "length (evict now rest) \<le> length rest"
    using evict_dropWhile [of now rest] by (simp add: length_dropWhile_le)
  then have "evict now rest \<noteq> t # rest"
    by auto
  with Cons show ?thesis
    by auto
qed

text \<open>
  C8, amended. For a limiter configured at 1 or more requests per minute,
  \<open>get_wait_time\<close> returns without sleeping the number of seconds (0 if none) that
  \<open>acquire\<close> would sleep at the same clock reading. It adds no timestamp; it removes the
  leading timestamps older than 60 seconds and keeps the rest in order, which
  \<open>acquire\<close> at that reading does not notice; the limiter is unchanged exactly when it
  has no timestamp or its oldest one is at most 60 seconds old. When the timestamps are
  sorted, as \<open>acquire\<close> leaves them, what remains is exactly the timestamps of the
  trailing 60 seconds.
\<close>

theorem get_wait_time_peek:
  assumes rate: "1 \<le> rpm rl"
  shows "\<exists>w. fst (get_wait_time rl now) = Inr w \<and> 0 \<le> w
           \<and> fst (acquire rl now after) = Inr (if 0 < w then Some w else None)
           \<and> snd (get_wait_time rl now) = rl\<lparr>timestamps := evict now (timestamps rl)\<rparr>
           \<and> (\<exists>old. timestamps rl = old @ timestamps (snd (get_wait_time rl now))
                  \<and> (\<forall>t \<in> set old. 60 < now - t))
           \<and> acquire (snd (get_wait_time rl now)) now after = acquire rl now after
           \<and> (snd (get_wait_time rl now) = rl
                \<longleftrightarrow> timestamps rl = [] \<or> now - hd (timestamps rl) \<le> 60)
           \<and> (sorted (timestamps rl) \<longrightarrow>
                timestamps (snd (get_wait_time rl now))
                  = filter (\<lambda>t. now - t \<le> 60) (timestamps rl))"
proof -
  define ts where "ts = evict now (timestamps rl)"
  have st: "snd (get_wait_time rl now) = rl\<lparr>timestamps := ts\<rparr>"
    by (simp add: get_wait_time_def ts_def Let_def split: list.splits)
  have old: "\<exists>old. timestamps rl = old @ ts \<and> (\<forall>t \<in> set old. 60 < now - t)"
    unfolding ts_def by (rule evict_suffix)
  have same: "acquire (rl\<lparr>timestamps := ts\<rparr>) now after = acquire rl now after"
    by (simp add: acquire_def ts_def evict_idem Let_def split: list.splits)
  have "rl\<lparr>timestamps := ts\<rparr> = rl \<longleftrightarrow> ts = timestamps rl"
    by (cases rl) auto
  then have fixed: "rl\<lparr>timestamps := ts\<rparr> = rl
      \<longleftrightarrow> timestamps rl = [] \<or> now - hd (timestamps rl) \<le> 60"
    using evict_fixed [of now "timestamps rl"] by (auto simp: ts_def)
  have val: "\<exists>w. fst (get_wait_time rl now) = Inr w \<and> 0 \<le> w
           \<and> fst (acquire rl now after) = Inr (if 0 < w then Some w else None)"
  proof (cases ts)
    case Nil
    with rate show ?thesis
      by (simp add: get_wait_time_def acquire_def ts_def [symmetric])
  next
    case (Cons t0 rest)
    then show ?thesis
      by (simp add: get_wait_time_def acquire_def ts_def [symmetric] Let_def max_def)
  qed
  have kept: "sorted (timestamps rl) \<longrightarrow> ts = filter (\<lambda>t. now - t \<le> 60) (timestamps rl)"
    by (simp add: ts_def evict_sorted_filter)
  from val st old same fixed kept show ?thesis
    by (simp add: ts_def)
qed

theorem get_wait_time_peek_witness:
  "acquire \<lparr>rpm = 2, interval = 30, timestamps = []\<rparr> 50 id
     = (Inr None, \<lparr>rpm = 2, interval = 30, timestamps = [50]\<rparr>)
   \<and> acquire \<lparr>rpm = 2, interval = 30, timestamps = [50]\<rparr> 70 id
     = (Inr None, \<lparr>rpm = 2, interval = 30, timestamps = [50, 70]\<rparr>)
   \<and> get_wait_time \<lparr>rpm = 2, interval = 30, timestamps = [50, 70]\<rparr> 100
     = (Inr 10, \<lparr>rpm = 2, interval = 30, timestamps = [50, 70]\<rparr>)
   \<and> fst (acquire \<lparr>rpm = 2, interval = 30, timestamps = [50, 70]\<rparr> 100 (\<lambda>d. 100 + d))
     = Inr (Some 10)
   \<and> get_wait_time \<lparr>rpm = 2, interval = 30, timestamps = [50, 70]\<rparr> 125
     = (Inr 0, \<lparr>rpm = 2, interval = 30, timestamps = [70]\<rparr>)
   \<and> fst (acquire \<lparr>rpm = 2, interval = 30, timestamps = [50, 70]\<rparr> 125 (\<lambda>d. 125 + d))
     = Inr None"
proof -
  have reach: "acquire \<lparr>rpm = 2, interval = 30, timestamps = []\<rparr> 50 id
       = (Inr None, \<lparr>rpm = 2, interval = 30, timestamps = [50]\<rparr>)"
    "acquire \<lparr>rpm = 2, interval = 30, timestamps = [50]\<rparr> 70 id
       = (Inr None, \<lparr>rpm = 2, interval = 30, timestamps = [50, 70]\<rparr>)"
    by (simp_all add: acquire_def)
  have rate: "1 \<le> rpm \<lparr>rpm = 2, interval = 30, timestamps = [50, 70]\<rparr>"
    by simp
  from get_wait_time_peek [OF rate, of 100 "\<lambda>d. 100 + d"]
    get_wait_time_peek [OF rate, of 125 "\<lambda>d. 125 + d"] reach
  show ?thesis
    by (auto simp: get_wait_time_def)
qed

section \<open>Properties of translate_with_retry\<close>

lemma calls_append: "calls (a @ b) = calls a @ calls b"
  by (induction a rule: calls.induct) auto

lemma calls_limiter: "list_all is_limiter_event evs \<Longrightarrow> calls evs = []"
  by (induction evs rule: calls.induct) auto

lemma split_in_append:
  assumes "a @ b = pre @ ev # post"
  shows "(\<exists>post1. a = pre @ ev # post1 \<and> post = post1 @ b)
         \<or> (\<exists>pre2. pre = a @ pre2 \<and> b = pre2 @ ev # post)"
proof -
  from assms obtain us where
    "(a = pre @ us \<and> us @ b = ev # post) \<or> (a @ us = pre \<and> b = us @ ev # post)"
    by (auto simp: append_eq_append_conv2)
  then show ?thesis
  proof
    assume h: "a = pre @ us \<and> us @ b = ev # post"
    show ?thesis
    proof (cases us)
      case Nil
      with h have "pre = a @ [] \<and> b = [] @ ev # post" by simp
      then show ?thesis by blast
    next
      case (Cons u us')
      with h have "a = pre @ ev # us' \<and> post = us' @ b" by simp
      then show ?thesis by blast
    qed
  next
    assume "a @ us = pre \<and> b = us @ ev # post"
    then show ?thesis by blast
  qed
qed

lemma wins_no_call:
  assumes "calls new = []"
  shows "first_valid_wins rt text hist new out"
proof -
  have "calls (pre @ ApiCall name x tmo # post) \<noteq> []" for pre name x tmo post
    by (simp add: calls_append)
  with assms show ?thesis
    unfolding first_valid_wins_def by metis
qed

lemma wins_append:
  assumes a: "first_valid_wins rt text hist a None"
    and b: "first_valid_wins rt text (hist @ a) b out"
  shows "first_valid_wins rt text hist (a @ b) out"
  unfolding first_valid_wins_def
proof (intro allI impI)
  fix pre name x tmo post
  assume eq: "a @ b = pre @ ApiCall name x tmo # post"
    and acc: "accepted text (api rt name x tmo (hist @ pre))"
  from split_in_append [OF eq]
  show "post = [] \<and>
        (\<exists>t e. api rt name x tmo (hist @ pre) = Returned True (Some t) e
               \<and> out = Some (postprocess_translation t, name))"
  proof
    assume "\<exists>post1. a = pre @ ApiCall name x tmo # post1 \<and> post = post1 @ b"
    then obtain post1 where "a = pre @ ApiCall name x tmo # post1" by blast
    with a acc show ?thesis
      unfolding first_valid_wins_def by blast
  next
    assume "\<exists>pre2. pre = a @ pre2 \<and> b = pre2 @ ApiCall name x tmo # post"
    then obtain pre2 where p: "pre = a @ pre2" "b = pre2 @ ApiCall name x tmo # post" by blast
    with b acc show ?thesis
      unfolding first_valid_wins_def by (metis append.assoc)
  qed
qed

lemma wins_last_call:
  assumes les: "calls les = []"
    and out: "accepted text (api rt name x tmo (hist @ les)) \<longrightarrow>
       (\<exists>t e. api rt name x tmo (hist @ les) = Returned True (Some t) e
               \<and> out = Some (postprocess_translation t, name))"
  shows "first_valid_wins rt text hist (les @ [ApiCall name x tmo]) out"
  unfolding first_valid_wins_def
proof (intro allI impI)
  fix pre name' x' tmo' post
  assume eq: "les @ [ApiCall name x tmo] = pre @ ApiCall name' x' tmo' # post"
    and acc: "accepted text (api rt name' x' tmo' (hist @ pre))"
  from split_in_append [OF eq]
  show "post = [] \<and>
        (\<exists>t e. api rt name' x' tmo' (hist @ pre) = Returned True (Some t) e
               \<and> out = Some (postprocess_translation t, name'))"
  proof
    assume "\<exists>post1. les = pre @ ApiCall name' x' tmo' # post1 \<and> post = post1 @ [ApiCall name x tmo]"
    then have "calls les \<noteq> []" by (auto simp: calls_append)
    with les show ?thesis by simp
  next
    assume "\<exists>pre2. pre = les @ pre2 \<and> [ApiCall name x tmo] = pre2 @ ApiCall name' x' tmo' # post"
    then obtain pre2 where p: "pre = les @ pre2" "[ApiCall name x tmo] = pre2 @ ApiCall name' x' tmo' # post"
      by blast
    from p(2) have "pre2 = [] \<and> post = [] \<and> name' = name \<and> x' = x \<and> tmo' = tmo"
      by (cases pre2) auto
    with p(1) acc out show ?thesis by simp
  qed
qed

lemma rate_limit_trace:
  assumes "rate_limit rt st = (e, st')"
  shows "\<exists>les. trace st' = trace st @ les \<and> list_all is_limiter_event les
           \<and> stats st' = stats st \<and> checkpoint_dir st' = checkpoint_dir st"
  using assms
  by (auto simp: rate_limit_def Let_def split: option.splits prod.splits sum.splits)

lemma get_wait_time_rpm: "rpm (snd (get_wait_time rl now)) = rpm rl"
  by (simp add: get_wait_time_def Let_def split: list.splits)

lemma acquire_rpm: "rpm (snd (acquire rl now after)) = rpm rl"
  by (simp add: acquire_def Let_def split: list.splits)

lemma get_wait_time_ok: "1 \<le> rpm rl \<Longrightarrow> \<exists>w. fst (get_wait_time rl now) = Inr w"
  by (simp add: get_wait_time_def Let_def split: list.splits)

lemma acquire_ok: "1 \<le> rpm rl \<Longrightarrow> \<exists>d. fst (acquire rl now after) = Inr d"
  by (simp add: acquire_def Let_def split: list.splits)

lemma rate_limit_ok:
  assumes ok: "limiter_ok st" and run: "rate_limit rt st = (e, st')"
  shows "e = None \<and> limiter_ok st'"
proof (cases "limiter st")
  case None
  with ok run show ?thesis
    by (auto simp: rate_limit_def)
next
  case (Some rl)
  with ok have rate: "1 \<le> rpm rl"
    by (simp add: limiter_ok_def)
  define now where "now = clock rt (trace st)"
  obtain w rl1 where g: "get_wait_time rl now = (Inr w, rl1)"
    using get_wait_time_ok [OF rate, of now] by (cases "get_wait_time rl now") auto
  have rate1: "1 \<le> rpm rl1"
    using get_wait_time_rpm [of rl now] g rate by simp
  define st1 where "st1 = st\<lparr>trace := trace st @ [ClockRead now], limiter := Some rl1\<rparr>"
  define now2 where "now2 = clock rt (trace st1)"
  define after where "after = (\<lambda>d. clock rt (trace st1 @ [ClockRead now2, LimiterSleep d]))"
  obtain d rl2 where a: "acquire rl1 now2 after = (Inr d, rl2)"
    using acquire_ok [OF rate1, of now2 after] by (cases "acquire rl1 now2 after") auto
  have rate2: "1 \<le> rpm rl2"
    using acquire_rpm [of rl1 now2 after] a rate1 by simp
  from run Some g a rate2 show ?thesis
    by (cases d)
       (auto simp: rate_limit_def Let_def now_def st1_def now2_def after_def limiter_ok_def)
qed


lemma attempt_cases:
  assumes run: "attempt rt text processed name st = (r, st')"
  obtains (raised) les where "trace st' = trace st @ les" "list_all is_limiter_event les"
      "r = None" "stats st' = stats st" "checkpoint_dir st' = checkpoint_dir st"
      "\<not> limiter_ok st"
  | (called) les where
      "trace st' = trace st @ les @ [ApiCall name processed REQUEST_TIMEOUT]"
      "list_all is_limiter_event les"
      "stats st' = stats st" "checkpoint_dir st' = checkpoint_dir st"
      "limiter_ok st \<longrightarrow> limiter_ok st'"
      "case api rt name processed REQUEST_TIMEOUT (trace st @ les) of
         Returned True (Some t) e \<Rightarrow>
           r = (if fst (validate_translation text t) then Some (postprocess_translation t) else None)
       | _ \<Rightarrow> r = None"
proof -
  obtain e st1 where rl: "rate_limit rt st = (e, st1)"
    by (cases "rate_limit rt st")
  from rate_limit_trace [OF rl] obtain les where les: "trace st1 = trace st @ les"
    "list_all is_limiter_event les" "stats st1 = stats st"
    "checkpoint_dir st1 = checkpoint_dir st"
    by blast
  show thesis
  proof (cases e)
    case (Some err)
    with run rl have "r = None" "st' = st1"
      by (auto simp: attempt_def)
    moreover from Some rl have "\<not> limiter_ok st"
      using rate_limit_ok [of st rt e st1] by auto
    ultimately show thesis
      using les raised by blast
  next
    case None
    define st2 where "st2 = st1\<lparr>trace := trace st1 @ [ApiCall name processed REQUEST_TIMEOUT]\<rparr>"
    from run rl None have st': "st' = st2"
      by (auto simp: attempt_def Let_def st2_def split: api_result.splits option.splits if_splits)
    have ok: "limiter_ok st \<longrightarrow> limiter_ok st'"
      using rate_limit_ok [of st rt e st1] rl st' by (auto simp: st2_def limiter_ok_def)
    have res: "case api rt name processed REQUEST_TIMEOUT (trace st @ les) of
         Returned True (Some t) e \<Rightarrow>
           r = (if fst (validate_translation text t) then Some (postprocess_translation t) else None)
       | _ \<Rightarrow> r = None"
      using run rl None les(1)
      by (auto simp: attempt_def Let_def split: api_result.splits option.splits if_splits bool.splits)
    show thesis
      using called [of les] les st' ok res by (simp add: st2_def)
  qed
qed

lemma attempt_summary:
  assumes run: "attempt rt text processed name st = (r, st')"
  shows "\<exists>new. trace st' = trace st @ new
           \<and> first_valid_wins rt text (trace st) new (map_option (\<lambda>f. (f, name)) r)
           \<and> (\<exists>k \<le> 1. calls new = replicate k (name, processed, REQUEST_TIMEOUT))
           \<and> (r \<noteq> None \<longrightarrow> calls new \<noteq> [])
           \<and> stats st' = stats st \<and> checkpoint_dir st' = checkpoint_dir st"
  using run
proof (cases rule: attempt_cases)
  case (raised les)
  then have "calls les = []"
    by (simp add: calls_limiter)
  then have k: "\<exists>k \<le> 1. calls les = replicate k (name, processed, REQUEST_TIMEOUT)"
    by (intro exI [of _ 0]) simp
  have w: "first_valid_wins rt text (trace st) les (map_option (\<lambda>f. (f, name)) r)"
    using \<open>calls les = []\<close> by (rule wins_no_call)
  from raised(1,3,4,5) w k show ?thesis
    by blast
next
  case (called les)
  let ?new = "les @ [ApiCall name processed REQUEST_TIMEOUT]"
  let ?res = "api rt name processed REQUEST_TIMEOUT (trace st @ les)"
  from called have q: "calls les = []"
    by (simp add: calls_limiter)
  have "accepted text ?res \<longrightarrow>
       (\<exists>t e. ?res = Returned True (Some t) e
               \<and> map_option (\<lambda>f. (f, name)) r = Some (postprocess_translation t, name))"
    proof (cases ?res)
    case (Returned success translation err)
    with called(6) show ?thesis
      by (cases translation; cases success) (auto split: if_splits)
  next
    case Raised
    then show ?thesis by simp
  qed
  then have w: "first_valid_wins rt text (trace st) ?new (map_option (\<lambda>f. (f, name)) r)"
    by (rule wins_last_call [OF q])
  have c: "calls ?new = replicate 1 (name, processed, REQUEST_TIMEOUT)"
    using q by (simp add: calls_append)
  then have k: "\<exists>k \<le> 1. calls ?new = replicate k (name, processed, REQUEST_TIMEOUT)"
    by blast
  have nz: "r \<noteq> None \<longrightarrow> calls ?new \<noteq> []"
    using c by simp
  from called(1,3,4) w k nz show ?thesis
    by blast
qed

lemma retry_loop_summary:
  assumes run: "retry_loop rt text processed name max_retries as st = (r, st')"
  shows "\<exists>new. trace st' = trace st @ new
           \<and> first_valid_wins rt text (trace st) new (map_option (\<lambda>f. (f, name)) r)
           \<and> (\<exists>k \<le> length as. calls new = replicate k (name, processed, REQUEST_TIMEOUT))
           \<and> (r \<noteq> None \<longrightarrow> calls new \<noteq> [])
           \<and> stats st' = stats st \<and> checkpoint_dir st' = checkpoint_dir st"
  using run
proof (induction as arbitrary: st)
  case Nil
  then have "r = None" "st' = st"
    by auto
  moreover have "first_valid_wins rt text (trace st) [] None"
    by (rule wins_no_call) simp
  ultimately show ?case
    by (intro exI [of _ "[]"]) simp
next
  case (Cons a as)
  obtain r1 st1 where att: "attempt rt text processed name st = (r1, st1)"
    by (cases "attempt rt text processed name st")
  from attempt_summary [OF att] obtain new1 k1 where n1: "trace st1 = trace st @ new1"
    "first_valid_wins rt text (trace st) new1 (map_option (\<lambda>f. (f, name)) r1)"
    "k1 \<le> 1" "calls new1 = replicate k1 (name, processed, REQUEST_TIMEOUT)"
    "r1 \<noteq> None \<longrightarrow> calls new1 \<noteq> []"
    "stats st1 = stats st" "checkpoint_dir st1 = checkpoint_dir st"
    by blast
  show ?case
  proof (cases r1)
    case (Some final)
    with Cons.prems att have "r = r1" "st' = st1"
      by auto
    moreover have "\<exists>k \<le> length (a # as). calls new1 = replicate k (name, processed, REQUEST_TIMEOUT)"
      using n1(3,4) by (intro exI [of _ k1]) simp
    ultimately show ?thesis
      using n1(1,2,5,6,7) by blast
  next
    case None
    define bo where "bo = (if int a < max_retries - 1
      then [BackoffSleep (BACKOFF_MULTIPLIER ^ a)] else [])"
    define st2 where "st2 = st1\<lparr>trace := trace st1 @ bo\<rparr>"
    have st2_eq: "(if int a < max_retries - 1
             then st1\<lparr>trace := trace st1 @ [BackoffSleep (BACKOFF_MULTIPLIER ^ a)]\<rparr>
             else st1) = st2"
      by (simp add: st2_def bo_def)
    from Cons.prems att None have rec: "retry_loop rt text processed name max_retries as st2 = (r, st')"
      by (simp add: st2_eq)
    from Cons.IH [OF rec] obtain new2 k2 where n2: "trace st' = trace st2 @ new2"
      "first_valid_wins rt text (trace st2) new2 (map_option (\<lambda>f. (f, name)) r)"
      "k2 \<le> length as" "calls new2 = replicate k2 (name, processed, REQUEST_TIMEOUT)"
      "r \<noteq> None \<longrightarrow> calls new2 \<noteq> []"
      "stats st' = stats st2" "checkpoint_dir st' = checkpoint_dir st2"
      by blast
    have cbo: "calls bo = []"
      by (simp add: bo_def)
    have t2: "trace st2 = trace st @ (new1 @ bo)"
      using n1(1) by (simp add: st2_def)
    have w1: "first_valid_wins rt text (trace st) (new1 @ bo) None"
      using wins_append [OF _ wins_no_call [OF cbo], of rt "text" "trace st" new1 None] n1(2) None
      by simp
    have w: "first_valid_wins rt text (trace st) ((new1 @ bo) @ new2)
               (map_option (\<lambda>f. (f, name)) r)"
      using wins_append [OF w1] n2(2) t2 by simp
    have c: "calls ((new1 @ bo) @ new2) = replicate (k1 + k2) (name, processed, REQUEST_TIMEOUT)"
      using n1(4) n2(4) cbo by (simp add: calls_append replicate_add)
    have k: "k1 + k2 \<le> length (a # as)"
      using n1(3) n2(3) by simp
    have nz: "r \<noteq> None \<longrightarrow> calls ((new1 @ bo) @ new2) \<noteq> []"
      using n2(5) by (simp add: calls_append)
    have fr: "stats st' = stats st" "checkpoint_dir st' = checkpoint_dir st"
      using n1(6,7) n2(6,7) by (simp_all add: st2_def)
    have tr: "trace st' = trace st @ ((new1 @ bo) @ new2)"
      using n2(1) t2 by simp
    from c k have "\<exists>k \<le> length (a # as).
        calls ((new1 @ bo) @ new2) = replicate k (name, processed, REQUEST_TIMEOUT)"
      by blast
    with tr w nz fr show ?thesis
      by blast
  qed
qed


lemma api_loop_summary:
  assumes run: "api_loop rt text processed max_retries apis st = (res, st')"
  shows "\<exists>new ks. trace st' = trace st @ new
           \<and> first_valid_wins rt text (trace st) new
                 (map_option (\<lambda>f. (f, fst (snd res))) (fst res))
           \<and> length ks \<le> length apis \<and> (\<forall>k \<in> set ks. k \<le> nat max_retries)
           \<and> calls new =
                 concat (map (\<lambda>(n, k). replicate k (n, processed, REQUEST_TIMEOUT)) (zip apis ks))
           \<and> (res = (None, ''failed'', Some ''All API attempts exhausted'')
                \<or> (\<exists>f n. res = (Some f, n, None) \<and> n \<in> set apis \<and> calls new \<noteq> []))
           \<and> stats st' = stats st \<and> checkpoint_dir st' = checkpoint_dir st"
  using run
proof (induction apis arbitrary: st)
  case Nil
  then have "res = (None, ''failed'', Some ''All API attempts exhausted'')" "st' = st"
    by auto
  moreover have "first_valid_wins rt text (trace st) [] None"
    by (rule wins_no_call) simp
  ultimately show ?case
    by (intro exI [of _ "[]"]) simp
next
  case (Cons name apis)
  obtain r1 st1 where rl: "retry_loop rt text processed name max_retries [0..<nat max_retries] st
      = (r1, st1)"
    by (cases "retry_loop rt text processed name max_retries [0..<nat max_retries] st")
  from retry_loop_summary [OF rl] obtain new1 k1 where n1: "trace st1 = trace st @ new1"
    "first_valid_wins rt text (trace st) new1 (map_option (\<lambda>f. (f, name)) r1)"
    "k1 \<le> nat max_retries" "calls new1 = replicate k1 (name, processed, REQUEST_TIMEOUT)"
    "r1 \<noteq> None \<longrightarrow> calls new1 \<noteq> []"
    "stats st1 = stats st" "checkpoint_dir st1 = checkpoint_dir st"
    by auto
  show ?case
  proof (cases r1)
    case (Some final)
    with Cons.prems rl have res: "res = (Some final, name, None)" and st': "st' = st1"
      by auto
    have c: "calls new1 = concat (map (\<lambda>(n, k). replicate k (n, processed, REQUEST_TIMEOUT))
        (zip (name # apis) [k1]))"
      using n1(4) by simp
    have w: "first_valid_wins rt text (trace st) new1
        (map_option (\<lambda>f. (f, fst (snd res))) (fst res))"
      using n1(2) Some res by simp
    have shape: "\<exists>f n. res = (Some f, n, None) \<and> n \<in> set (name # apis) \<and> calls new1 \<noteq> []"
      using res n1(5) Some by simp
    have "length [k1] \<le> length (name # apis) \<and> (\<forall>k \<in> set [k1]. k \<le> nat max_retries)"
      using n1(3) by simp
    with n1(1,6,7) st' c w shape show ?thesis
      by blast
  next
    case None
    with Cons.prems rl have rec: "api_loop rt text processed max_retries apis st1 = (res, st')"
      by simp
    from Cons.IH [OF rec] obtain new2 ks where n2: "trace st' = trace st1 @ new2"
      "first_valid_wins rt text (trace st1) new2 (map_option (\<lambda>f. (f, fst (snd res))) (fst res))"
      "length ks \<le> length apis" "\<forall>k \<in> set ks. k \<le> nat max_retries"
      "calls new2 = concat (map (\<lambda>(n, k). replicate k (n, processed, REQUEST_TIMEOUT)) (zip apis ks))"
      "res = (None, ''failed'', Some ''All API attempts exhausted'')
         \<or> (\<exists>f n. res = (Some f, n, None) \<and> n \<in> set apis \<and> calls new2 \<noteq> [])"
      "stats st' = stats st1" "checkpoint_dir st' = checkpoint_dir st1"
      by blast
    have tr: "trace st' = trace st @ (new1 @ new2)"
      using n1(1) n2(1) by simp
    have w: "first_valid_wins rt text (trace st) (new1 @ new2)
        (map_option (\<lambda>f. (f, fst (snd res))) (fst res))"
      using wins_append [of rt "text" "trace st" new1 new2] n1(1,2) n2(2) None by simp
    have c: "calls (new1 @ new2) = concat (map (\<lambda>(n, k). replicate k (n, processed, REQUEST_TIMEOUT))
        (zip (name # apis) (k1 # ks)))"
      using n1(4) n2(5) by (simp add: calls_append)
    have ks: "length (k1 # ks) \<le> length (name # apis) \<and> (\<forall>k \<in> set (k1 # ks). k \<le> nat max_retries)"
      using n1(3) n2(3,4) by simp
    have shape: "res = (None, ''failed'', Some ''All API attempts exhausted'')
         \<or> (\<exists>f n. res = (Some f, n, None) \<and> n \<in> set (name # apis) \<and> calls (new1 @ new2) \<noteq> [])"
      using n2(6) by (auto simp: calls_append)
    have fr: "stats st' = stats st" "checkpoint_dir st' = checkpoint_dir st"
      using n1(6,7) n2(7,8) by simp_all
    from tr w c ks shape fr show ?thesis
      by blast
  qed
qed

lemma dead_not_ok: "limiter_dead st \<Longrightarrow> \<not> limiter_ok st"
  by (auto simp: limiter_dead_def limiter_ok_def split: option.splits)

lemma rate_limit_dead:
  assumes "limiter_dead st"
  shows "\<exists>e st'. rate_limit rt st = (Some e, st') \<and> limiter_dead st'"
proof -
  from assms obtain rl where rl: "limiter st = Some rl" "rpm rl \<le> 0" "timestamps rl = []"
    by (auto simp: limiter_dead_def split: option.splits)
  have "get_wait_time rl now = (Inl IndexError, rl)" for now
    using rl by (cases rl) (simp add: get_wait_time_def)
  with rl show ?thesis
    by (simp add: rate_limit_def Let_def limiter_dead_def)
qed

lemma get_wait_time_raises:
  "get_wait_time rl now = (Inl e, rl') \<Longrightarrow> rpm rl' \<le> 0 \<and> timestamps rl' = []"
  by (auto simp: get_wait_time_def Let_def split: if_splits list.splits)

lemma acquire_raises:
  "acquire rl now after = (Inl e, rl') \<Longrightarrow> rpm rl' \<le> 0 \<and> timestamps rl' = []"
  by (auto simp: acquire_def Let_def split: if_splits list.splits)

lemma rate_limit_raises:
  assumes "rate_limit rt st = (Some e, st')"
  shows "limiter_dead st'"
proof (cases "limiter st")
  case None
  with assms show ?thesis
    by (simp add: rate_limit_def)
next
  case (Some rl)
  define now where "now = clock rt (trace st)"
  obtain w rl1 where g: "get_wait_time rl now = (w, rl1)"
    by (cases "get_wait_time rl now")
  show ?thesis
  proof (cases w)
    case (Inl err)
    with assms Some g get_wait_time_raises [of rl now err rl1] show ?thesis
      by (auto simp: rate_limit_def Let_def now_def limiter_dead_def)
  next
    case (Inr wt)
    define st1 where "st1 = st\<lparr>trace := trace st @ [ClockRead now], limiter := Some rl1\<rparr>"
    define now2 where "now2 = clock rt (trace st1)"
    define after where "after = (\<lambda>d. clock rt (trace st1 @ [ClockRead now2, LimiterSleep d]))"
    obtain d rl2 where a: "acquire rl1 now2 after = (d, rl2)"
      by (cases "acquire rl1 now2 after")
    show ?thesis
    proof (cases d)
      case (Inl err)
      with assms Some g Inr a acquire_raises [of rl1 now2 after err rl2] show ?thesis
        by (auto simp: rate_limit_def Let_def now_def st1_def now2_def after_def limiter_dead_def)
    next
      case inr: (Inr sl)
      with assms Some g Inr a show ?thesis
        by (cases sl)
           (auto simp: rate_limit_def Let_def now_def st1_def now2_def after_def)
    qed
  qed
qed

lemma attempt_count:
  assumes run: "attempt rt text processed name st = (r, st')"
  shows "\<exists>new. trace st' = trace st @ new
     \<and> ((calls new = [] \<and> r = None \<and> limiter_dead st')
         \<or> (calls new = [(name, processed, REQUEST_TIMEOUT)] \<and> \<not> limiter_dead st
             \<and> limiter st' = limiter (snd (rate_limit rt st))))"
proof -
  obtain e st1 where rl: "rate_limit rt st = (e, st1)"
    by (cases "rate_limit rt st")
  from rate_limit_trace [OF rl] obtain les where les: "trace st1 = trace st @ les"
    "list_all is_limiter_event les"
    by blast
  then have q: "calls les = []"
    by (simp add: calls_limiter)
  show ?thesis
  proof (cases e)
    case (Some err)
    with run rl have "r = None" "st' = st1"
      by (auto simp: attempt_def)
    with rate_limit_raises [of rt st err st1] rl Some les(1) q show ?thesis
      by auto
  next
    case None
    define st2 where "st2 = st1\<lparr>trace := trace st1 @ [ApiCall name processed REQUEST_TIMEOUT]\<rparr>"
    from run rl None have st': "st' = st2"
      by (auto simp: attempt_def Let_def st2_def split: api_result.splits option.splits if_splits)
    have nd: "\<not> limiter_dead st"
      using rate_limit_dead [of st rt] rl None by auto
    have "trace st' = trace st @ (les @ [ApiCall name processed REQUEST_TIMEOUT])"
      using st' les(1) by (simp add: st2_def)
    moreover have "calls (les @ [ApiCall name processed REQUEST_TIMEOUT])
        = [(name, processed, REQUEST_TIMEOUT)]"
      using q by (simp add: calls_append)
    moreover have "limiter st' = limiter (snd (rate_limit rt st))"
      using st' rl by (simp add: st2_def)
    ultimately show ?thesis
      using nd by blast
  qed
qed

lemma retry_loop_count:
  assumes run: "retry_loop rt text processed name max_retries as st = (r, st')"
  shows "\<exists>new k. trace st' = trace st @ new
     \<and> calls new = replicate k (name, processed, REQUEST_TIMEOUT)
     \<and> k \<le> length as
     \<and> (r = None \<longrightarrow> k = length as \<or> limiter_dead st')
     \<and> (r \<noteq> None \<longrightarrow> 1 \<le> k)
     \<and> (limiter_dead st \<longrightarrow> k = 0 \<and> r = None \<and> limiter_dead st')"
  using run
proof (induction as arbitrary: st)
  case Nil
  then have "r = None" "st' = st"
    by auto
  then show ?case
    by (intro exI [of _ "[]"] exI [of _ 0]) simp
next
  case (Cons a as)
  let ?c = "(name, processed, REQUEST_TIMEOUT)"
  obtain r1 st1 where att: "attempt rt text processed name st = (r1, st1)"
    by (cases "attempt rt text processed name st")
  from attempt_count [OF att] obtain new1 where n1: "trace st1 = trace st @ new1"
    and alt: "(calls new1 = [] \<and> r1 = None \<and> limiter_dead st1)
         \<or> (calls new1 = [?c] \<and> \<not> limiter_dead st)"
    by blast
  define bo where "bo = (if int a < max_retries - 1
      then [BackoffSleep (BACKOFF_MULTIPLIER ^ a)] else [])"
  define st2 where "st2 = st1\<lparr>trace := trace st1 @ bo\<rparr>"
  have st2_eq: "(if int a < max_retries - 1
           then st1\<lparr>trace := trace st1 @ [BackoffSleep (BACKOFF_MULTIPLIER ^ a)]\<rparr>
           else st1) = st2"
    by (simp add: st2_def bo_def)
  have cbo: "calls bo = []"
    by (simp add: bo_def)
  have dead2: "limiter_dead st2 = limiter_dead st1"
    by (simp add: st2_def limiter_dead_def)
  show ?case
  proof (cases r1)
    case (Some final)
    with Cons.prems att have res: "r = r1" "st' = st1"
      by auto
    from alt Some have c: "calls new1 = [?c]" and nd: "\<not> limiter_dead st"
      by auto
    have "calls new1 = replicate 1 ?c \<and> 1 \<le> length (a # as)
        \<and> (r = None \<longrightarrow> 1 = length (a # as) \<or> limiter_dead st')
        \<and> (r \<noteq> None \<longrightarrow> (1::nat) \<le> 1)
        \<and> (limiter_dead st \<longrightarrow> (1::nat) = 0 \<and> r = None \<and> limiter_dead st')"
      using c nd res Some by simp
    with n1 res show ?thesis
      by blast
  next
    case None
    from Cons.prems att None have rec:
      "retry_loop rt text processed name max_retries as st2 = (r, st')"
      by (simp add: st2_eq)
    from Cons.IH [OF rec] obtain new2 k2 where n2: "trace st' = trace st2 @ new2"
      "calls new2 = replicate k2 ?c" "k2 \<le> length as"
      "r = None \<longrightarrow> k2 = length as \<or> limiter_dead st'"
      "r \<noteq> None \<longrightarrow> 1 \<le> k2"
      "limiter_dead st2 \<longrightarrow> k2 = 0 \<and> r = None \<and> limiter_dead st'"
      by blast
    have tr: "trace st' = trace st @ (new1 @ bo @ new2)"
      using n1 n2(1) by (simp add: st2_def)
    from alt show ?thesis
    proof
      assume a1: "calls new1 = [] \<and> r1 = None \<and> limiter_dead st1"
      with n2(6) dead2 have z: "k2 = 0" "r = None" "limiter_dead st'"
        by simp_all
      have "calls (new1 @ bo @ new2) = replicate 0 ?c"
        using a1 cbo n2(2) z(1) by (simp add: calls_append)
      with tr z show ?thesis
        by (intro exI [of _ "new1 @ bo @ new2"] exI [of _ 0]) simp
    next
      assume a2: "calls new1 = [?c] \<and> \<not> limiter_dead st"
      have "calls (new1 @ bo @ new2) = replicate (Suc k2) ?c"
        using a2 cbo n2(2) by (simp add: calls_append)
      moreover have "Suc k2 \<le> length (a # as)"
        using n2(3) by simp
      moreover have "r = None \<longrightarrow> Suc k2 = length (a # as) \<or> limiter_dead st'"
        using n2(4) by simp
      ultimately show ?thesis
        using tr a2 by (intro exI [of _ "new1 @ bo @ new2"] exI [of _ "Suc k2"]) simp
    qed
  qed
qed

lemma retry_loop_ok:
  assumes "limiter_ok st" and "retry_loop rt text processed name max_retries as st = (r, st')"
  shows "limiter_ok st'"
  using assms
proof (induction as arbitrary: st)
  case Nil
  then show ?case by simp
next
  case (Cons a as)
  obtain r1 st1 where att: "attempt rt text processed name st = (r1, st1)"
    by (cases "attempt rt text processed name st")
  from att Cons.prems(1) have ok1: "limiter_ok st1"
    by (cases rule: attempt_cases) auto
  show ?case
  proof (cases r1)
    case (Some final)
    with Cons.prems(2) att ok1 show ?thesis by auto
  next
    case None
    define st2 where "st2 = (if int a < max_retries - 1
             then st1\<lparr>trace := trace st1 @ [BackoffSleep (BACKOFF_MULTIPLIER ^ a)]\<rparr>
             else st1)"
    have ok2: "limiter_ok st2"
      using ok1 by (simp add: st2_def limiter_ok_def)
    from Cons.prems(2) att None have "retry_loop rt text processed name max_retries as st2 = (r, st')"
      by (simp add: st2_def)
    from Cons.IH [OF ok2 this] show ?thesis .
  qed
qed

lemma api_loop_ok:
  assumes "limiter_ok st" and "api_loop rt text processed max_retries apis st = (res, st')"
  shows "limiter_ok st'"
  using assms
proof (induction apis arbitrary: st)
  case Nil
  then show ?case by simp
next
  case (Cons name apis)
  obtain r1 st1 where rl: "retry_loop rt text processed name max_retries [0..<nat max_retries] st
      = (r1, st1)"
    by (cases "retry_loop rt text processed name max_retries [0..<nat max_retries] st")
  from retry_loop_ok [OF Cons.prems(1) rl] have ok1: "limiter_ok st1" .
  show ?case
  proof (cases r1)
    case (Some final)
    with Cons.prems(2) rl ok1 show ?thesis by auto
  next
    case None
    with Cons.prems(2) rl have "api_loop rt text processed max_retries apis st1 = (res, st')"
      by simp
    from Cons.IH [OF ok1 this] show ?thesis .
  qed
qed

lemma api_order_count:
  assumes loop: "api_loop rt text processed max_retries (api_order pl) st = (res, st')"
  defines "primary \<equiv> (if primary_api pl = ''nvidia'' then ''nvidia'' else ''fanar'')"
    and "secondary \<equiv> (if primary_api pl = ''nvidia'' then ''fanar'' else ''nvidia'')"
  shows "\<exists>new k m. trace st' = trace st @ new
     \<and> calls new = replicate k (primary, processed, REQUEST_TIMEOUT)
                    @ replicate m (secondary, processed, REQUEST_TIMEOUT)
     \<and> k \<le> nat max_retries \<and> m \<le> nat max_retries
     \<and> (0 < m \<longrightarrow> enable_fallback pl \<and> k = nat max_retries)
     \<and> (fst res \<noteq> None \<longrightarrow>
           (fst (snd res) = primary \<and> 1 \<le> k \<and> m = 0)
           \<or> (fst (snd res) = secondary \<and> enable_fallback pl \<and> k = nat max_retries \<and> 1 \<le> m))
     \<and> (fst res = None \<longrightarrow>
           (k = nat max_retries \<and> m = (if enable_fallback pl then nat max_retries else 0))
           \<or> limiter_dead st')"
proof -
  let ?n = "nat max_retries"
  let ?p = "(primary, processed, REQUEST_TIMEOUT)"
  let ?s = "(secondary, processed, REQUEST_TIMEOUT)"
  obtain r1 st1 where rl1:
    "retry_loop rt text processed primary max_retries [0..<?n] st = (r1, st1)"
    by (cases "retry_loop rt text processed primary max_retries [0..<?n] st")
  from retry_loop_count [OF rl1] obtain new1 k where n1: "trace st1 = trace st @ new1"
    "calls new1 = replicate k ?p" "k \<le> ?n"
    "r1 = None \<longrightarrow> k = ?n \<or> limiter_dead st1"
    "r1 \<noteq> None \<longrightarrow> 1 \<le> k"
    by auto
  show ?thesis
  proof (cases r1)
    case (Some f)
    have ord: "\<exists>rest. api_order pl = primary # rest"
      by (simp add: api_order_def primary_def)
    with loop rl1 Some have res: "res = (Some f, primary, None)" "st' = st1"
      by auto
    have "calls new1 = replicate k ?p @ replicate 0 ?s"
      using n1(2) by simp
    with n1(1,3,5) res Some show ?thesis
      by (intro exI [of _ new1] exI [of _ k] exI [of _ 0]) simp
  next
    case None
    show ?thesis
    proof (cases "enable_fallback pl")
      case False
      then have ord: "api_order pl = [primary]"
        by (simp add: api_order_def primary_def)
      with loop rl1 None have res: "fst res = None" "st' = st1"
        by auto
      have "calls new1 = replicate k ?p @ replicate 0 ?s"
        using n1(2) by simp
      with n1(1,3,4) res None False show ?thesis
        by (intro exI [of _ new1] exI [of _ k] exI [of _ 0]) auto
    next
      case True
      then have ord: "api_order pl = [primary, secondary]"
        by (simp add: api_order_def primary_def secondary_def)
      obtain r2 st2 where rl2:
        "retry_loop rt text processed secondary max_retries [0..<?n] st1 = (r2, st2)"
        by (cases "retry_loop rt text processed secondary max_retries [0..<?n] st1")
      from retry_loop_count [OF rl2] obtain new2 m where n2: "trace st2 = trace st1 @ new2"
        "calls new2 = replicate m ?s" "m \<le> ?n"
        "r2 = None \<longrightarrow> m = ?n \<or> limiter_dead st2"
        "r2 \<noteq> None \<longrightarrow> 1 \<le> m"
        "limiter_dead st1 \<longrightarrow> m = 0 \<and> r2 = None \<and> limiter_dead st2"
        by auto
      from loop rl1 rl2 None ord have res: "fst res = r2" "st' = st2"
        "r2 \<noteq> None \<longrightarrow> fst (snd res) = secondary"
        by (auto split: option.splits)
      have tr: "trace st' = trace st @ (new1 @ new2)"
        using n1(1) n2(1) res(2) by simp
      have c: "calls (new1 @ new2) = replicate k ?p @ replicate m ?s"
        using n1(2) n2(2) by (simp add: calls_append)
      have full: "0 < m \<longrightarrow> k = ?n"
        using n1(4) n2(6) None by auto
      have a: "0 < m \<longrightarrow> enable_fallback pl \<and> k = ?n"
        using full True by simp
      have b: "fst res \<noteq> None \<longrightarrow>
           (fst (snd res) = primary \<and> 1 \<le> k \<and> m = 0)
           \<or> (fst (snd res) = secondary \<and> enable_fallback pl \<and> k = ?n \<and> 1 \<le> m)"
        using res(1,3) n2(5) full True by auto
      have d: "fst res = None \<longrightarrow>
           (k = ?n \<and> m = (if enable_fallback pl then ?n else 0)) \<or> limiter_dead st'"
        using res(1,2) n2(4,6) n1(4) None True by auto
      from tr c n1(3) n2(3) a b d show ?thesis
        by (intro exI [of _ "new1 @ new2"] exI [of _ k] exI [of _ m]) simp
    qed
  qed
qed

text \<open>
  C1. In the events a call of \<open>translate_with_retry\<close> adds to the trace, a provider call
  that returns success with a translation the validator accepts for the original text is
  the last event: no further attempt is made and no later provider is called, and the
  result is the postprocessed translation, the provider's name and no error.

  The provider calls are \<open>k\<close> calls of the primary followed by \<open>m\<close> calls of the
  secondary, each at most \<open>max_retries\<close>. The secondary is called only when fallback is
  enabled and only after the primary has been called \<open>max_retries\<close> times. A result is
  returned either by the primary, the secondary not being called, or by the secondary
  after all the attempts of the primary. When nothing is accepted and the limiter cannot
  raise, the primary has been called \<open>max_retries\<close> times and then, with fallback enabled,
  the secondary as often. The result is a translation with the name of its provider and no
  error, or \<open>(None, "failed", "All API attempts exhausted")\<close>.
\<close>

theorem translate_with_retry_first_valid_wins:
  assumes run: "translate_with_retry rt pl text max_retries st = (res, st')"
  shows "\<exists>new. trace st' = trace st @ new
     \<and> (\<forall>pre name x tmo post t e.
          new = pre @ ApiCall name x tmo # post \<longrightarrow>
          api rt name x tmo (trace st @ pre) = Returned True (Some t) e \<longrightarrow>
          fst (validate_translation text t) \<longrightarrow>
          post = [] \<and> res = (Some (postprocess_translation t), name, None))
     \<and> (\<exists>k m. map fst (calls new) =
                 replicate k (if primary_api pl = ''nvidia'' then ''nvidia'' else ''fanar'')
                 @ replicate m (if primary_api pl = ''nvidia'' then ''fanar'' else ''nvidia'')
               \<and> k \<le> nat max_retries \<and> m \<le> nat max_retries
               \<and> (0 < m \<longrightarrow> enable_fallback pl \<and> k = nat max_retries)
               \<and> (fst res \<noteq> None \<longrightarrow>
                    (fst (snd res) = (if primary_api pl = ''nvidia'' then ''nvidia'' else ''fanar'')
                       \<and> 1 \<le> k \<and> m = 0)
                    \<or> (fst (snd res) = (if primary_api pl = ''nvidia'' then ''fanar'' else ''nvidia'')
                       \<and> enable_fallback pl \<and> k = nat max_retries \<and> 1 \<le> m))
               \<and> (fst res = None \<longrightarrow> limiter_ok st \<longrightarrow>
                    k = nat max_retries
                    \<and> m = (if enable_fallback pl then nat max_retries else 0)))
     \<and> (res = (None, ''failed'', Some ''All API attempts exhausted'')
          \<or> (\<exists>f. res = (Some f, fst (snd res), None)))"
proof -
  define processed where
    "processed = preprocess_for_translation (isalnum rt) text (normalize_terms pl)"
  define primary where "primary = (if primary_api pl = ''nvidia'' then ''nvidia'' else ''fanar'')"
  define secondary where
    "secondary = (if primary_api pl = ''nvidia'' then ''fanar'' else ''nvidia'')"
  from run have loop: "api_loop rt text processed max_retries (api_order pl) st = (res, st')"
    by (simp add: translate_with_retry_def processed_def)
  from api_loop_summary [OF loop] obtain new ks where s0: "trace st' = trace st @ new"
    "first_valid_wins rt text (trace st) new (map_option (\<lambda>f. (f, fst (snd res))) (fst res))"
    "length ks \<le> length (api_order pl)" "\<forall>k \<in> set ks. k \<le> nat max_retries"
    "calls new = concat (map (\<lambda>(n, k). replicate k (n, processed, REQUEST_TIMEOUT))
        (zip (api_order pl) ks))"
    "res = (None, ''failed'', Some ''All API attempts exhausted'')
       \<or> (\<exists>f n. res = (Some f, n, None) \<and> n \<in> set (api_order pl) \<and> calls new \<noteq> [])"
    by blast
  note s = s0(1,2,6)
  have wins: "post = [] \<and> res = (Some (postprocess_translation t), name, None)"
    if split: "new = pre @ ApiCall name x tmo # post"
      and ans: "api rt name x tmo (trace st @ pre) = Returned True (Some t) e"
      and valid: "fst (validate_translation text t)"
    for pre name x tmo post t e
  proof -
    from ans valid have "accepted text (api rt name x tmo (trace st @ pre))"
      by simp
    with s(2) split ans have post: "post = []"
      and out: "map_option (\<lambda>f. (f, fst (snd res))) (fst res)
                  = Some (postprocess_translation t, name)"
      unfolding first_valid_wins_def by fastforce+
    from out s(3) have "res = (Some (postprocess_translation t), name, None)"
      by auto
    with post show ?thesis
      by simp
  qed
  have "\<exists>new k m. trace st' = trace st @ new
     \<and> calls new = replicate k (primary, processed, REQUEST_TIMEOUT)
                    @ replicate m (secondary, processed, REQUEST_TIMEOUT)
     \<and> k \<le> nat max_retries \<and> m \<le> nat max_retries
     \<and> (0 < m \<longrightarrow> enable_fallback pl \<and> k = nat max_retries)
     \<and> (fst res \<noteq> None \<longrightarrow>
           (fst (snd res) = primary \<and> 1 \<le> k \<and> m = 0)
           \<or> (fst (snd res) = secondary \<and> enable_fallback pl \<and> k = nat max_retries \<and> 1 \<le> m))
     \<and> (fst res = None \<longrightarrow>
           (k = nat max_retries \<and> m = (if enable_fallback pl then nat max_retries else 0))
           \<or> limiter_dead st')"
    unfolding primary_def secondary_def by (rule api_order_count [OF loop])
  then obtain new' k m where c: "trace st' = trace st @ new'"
    "calls new' = replicate k (primary, processed, REQUEST_TIMEOUT)
                    @ replicate m (secondary, processed, REQUEST_TIMEOUT)"
    "k \<le> nat max_retries" "m \<le> nat max_retries"
    "0 < m \<longrightarrow> enable_fallback pl \<and> k = nat max_retries"
    "fst res \<noteq> None \<longrightarrow>
           (fst (snd res) = primary \<and> 1 \<le> k \<and> m = 0)
           \<or> (fst (snd res) = secondary \<and> enable_fallback pl \<and> k = nat max_retries \<and> 1 \<le> m)"
    "fst res = None \<longrightarrow>
           (k = nat max_retries \<and> m = (if enable_fallback pl then nat max_retries else 0))
           \<or> limiter_dead st'"
    by (elim exE conjE) (rule that)
  from s(1) c(1) have same: "new' = new"
    by simp
  have names: "map fst (calls new) = replicate k primary @ replicate m secondary"
    using c(2) same by simp
  have alive: "limiter_ok st \<longrightarrow> \<not> limiter_dead st'"
    using api_loop_ok [OF _ loop] dead_not_ok [of st'] by blast
  have exhausted: "fst res = None \<longrightarrow> limiter_ok st \<longrightarrow>
      k = nat max_retries \<and> m = (if enable_fallback pl then nat max_retries else 0)"
    using c(7) alive by blast
  have order: "\<exists>k m. map fst (calls new) = replicate k primary @ replicate m secondary
       \<and> k \<le> nat max_retries \<and> m \<le> nat max_retries
       \<and> (0 < m \<longrightarrow> enable_fallback pl \<and> k = nat max_retries)
       \<and> (fst res \<noteq> None \<longrightarrow>
             (fst (snd res) = primary \<and> 1 \<le> k \<and> m = 0)
             \<or> (fst (snd res) = secondary \<and> enable_fallback pl \<and> k = nat max_retries \<and> 1 \<le> m))
       \<and> (fst res = None \<longrightarrow> limiter_ok st \<longrightarrow>
             k = nat max_retries \<and> m = (if enable_fallback pl then nat max_retries else 0))"
    by (intro exI [of _ k] exI [of _ m] conjI names c(3) c(4) c(5) c(6) exhausted)
  have shape: "res = (None, ''failed'', Some ''All API attempts exhausted'')
          \<or> (\<exists>f. res = (Some f, fst (snd res), None))"
    using s(3) by auto
  show ?thesis
  proof (intro exI [of _ new] conjI)
    show "trace st' = trace st @ new"
      by (rule s(1))
    show "\<forall>pre name x tmo post t e.
          new = pre @ ApiCall name x tmo # post \<longrightarrow>
          api rt name x tmo (trace st @ pre) = Returned True (Some t) e \<longrightarrow>
          fst (validate_translation text t) \<longrightarrow>
          post = [] \<and> res = (Some (postprocess_translation t), name, None)"
      by (intro allI impI) (rule wins)
    show "\<exists>k m. map fst (calls new) =
                 replicate k (if primary_api pl = ''nvidia'' then ''nvidia'' else ''fanar'')
                 @ replicate m (if primary_api pl = ''nvidia'' then ''fanar'' else ''nvidia'')
               \<and> k \<le> nat max_retries \<and> m \<le> nat max_retries
               \<and> (0 < m \<longrightarrow> enable_fallback pl \<and> k = nat max_retries)
               \<and> (fst res \<noteq> None \<longrightarrow>
                    (fst (snd res) = (if primary_api pl = ''nvidia'' then ''nvidia'' else ''fanar'')
                       \<and> 1 \<le> k \<and> m = 0)
                    \<or> (fst (snd res) = (if primary_api pl = ''nvidia'' then ''fanar'' else ''nvidia'')
                       \<and> enable_fallback pl \<and> k = nat max_retries \<and> 1 \<le> m))
               \<and> (fst res = None \<longrightarrow> limiter_ok st \<longrightarrow>
                    k = nat max_retries
                    \<and> m = (if enable_fallback pl then nat max_retries else 0))"
      using order unfolding primary_def secondary_def .
    show "res = (None, ''failed'', Some ''All API attempts exhausted'')
          \<or> (\<exists>f. res = (Some f, fst (snd res), None))"
      by (rule shape)
  qed
qed

lemma filter_upt_less: "filter (\<lambda>a. a < m) [0..<n] = [0..<min m n]"
proof (induction n)
  case 0
  then show ?case by simp
next
  case (Suc n)
  show ?case
  proof (cases "n < m")
    case True
    show ?thesis
    proof (cases "m \<le> Suc n")
      case le: True
      with True have "m = Suc n" by simp
      with Suc show ?thesis by (simp add: min_def)
    next
      case False
      with True Suc show ?thesis by (simp add: min_def)
    qed
  next
    case False
    with Suc show ?thesis by (simp add: min_def)
  qed
qed

lemma attempt_fails:
  assumes never: "\<forall>h. \<not> accepted text (api rt name processed REQUEST_TIMEOUT h)"
    and ok: "limiter_ok st"
    and run: "attempt rt text processed name st = (r, st')"
  shows "r = None \<and> limiter_ok st'
         \<and> (\<exists>les. trace st' = trace st @ les @ [ApiCall name processed REQUEST_TIMEOUT]
                  \<and> list_all is_limiter_event les)"
  using run
proof (cases rule: attempt_cases)
  case (raised les)
  with ok show ?thesis by simp
next
  case (called les)
  let ?res = "api rt name processed REQUEST_TIMEOUT (trace st @ les)"
  from never have na: "\<not> accepted text ?res"
    by blast
  have "r = None"
  proof (cases ?res)
    case (Returned success translation err)
    with called(6) na show ?thesis
      by (cases translation; cases success) (auto split: if_splits)
  next
    case Raised
    with called(6) show ?thesis by simp
  qed
  with called ok show ?thesis
    by blast
qed

lemma retry_loop_fails:
  assumes never: "\<forall>h. \<not> accepted text (api rt name processed REQUEST_TIMEOUT h)"
    and ok: "limiter_ok st"
    and run: "retry_loop rt text processed name max_retries as st = (r, st')"
  shows "r = None \<and> limiter_ok st'
         \<and> (\<exists>new. trace st' = trace st @ new
               \<and> filter (\<lambda>ev. \<not> is_limiter_event ev) new =
                   concat (map (\<lambda>a. ApiCall name processed REQUEST_TIMEOUT #
                                  (if int a < max_retries - 1
                                   then [BackoffSleep (BACKOFF_MULTIPLIER ^ a)] else [])) as))"
  using ok run
proof (induction as arbitrary: st)
  case Nil
  then show ?case by simp
next
  case (Cons a as)
  obtain r1 st1 where att: "attempt rt text processed name st = (r1, st1)"
    by (cases "attempt rt text processed name st")
  from attempt_fails [OF never Cons.prems(1) att] obtain les where a1: "r1 = None"
    "limiter_ok st1" "trace st1 = trace st @ les @ [ApiCall name processed REQUEST_TIMEOUT]"
    "list_all is_limiter_event les"
    by blast
  define bo where "bo = (if int a < max_retries - 1
      then [BackoffSleep (BACKOFF_MULTIPLIER ^ a)] else [])"
  define st2 where "st2 = st1\<lparr>trace := trace st1 @ bo\<rparr>"
  have st2_eq: "(if int a < max_retries - 1
           then st1\<lparr>trace := trace st1 @ [BackoffSleep (BACKOFF_MULTIPLIER ^ a)]\<rparr>
           else st1) = st2"
    by (simp add: st2_def bo_def)
  from Cons.prems(2) att a1(1) have rec:
    "retry_loop rt text processed name max_retries as st2 = (r, st')"
    by (simp add: st2_eq)
  have ok2: "limiter_ok st2"
    using a1(2) by (simp add: st2_def limiter_ok_def)
  from Cons.IH [OF ok2 rec] obtain new2 where n2: "r = None" "limiter_ok st'"
    "trace st' = trace st2 @ new2"
    "filter (\<lambda>ev. \<not> is_limiter_event ev) new2 =
       concat (map (\<lambda>a. ApiCall name processed REQUEST_TIMEOUT #
                      (if int a < max_retries - 1
                       then [BackoffSleep (BACKOFF_MULTIPLIER ^ a)] else [])) as)"
    by blast
  have fl: "filter (\<lambda>ev. \<not> is_limiter_event ev) les = []"
    using a1(4) by (induction les) auto
  have fb: "filter (\<lambda>ev. \<not> is_limiter_event ev) bo = bo"
    by (simp add: bo_def)
  let ?new = "les @ [ApiCall name processed REQUEST_TIMEOUT] @ bo @ new2"
  have tr: "trace st' = trace st @ ?new"
    using n2(3) a1(3) by (simp add: st2_def)
  have f: "filter (\<lambda>ev. \<not> is_limiter_event ev) ?new =
       concat (map (\<lambda>a. ApiCall name processed REQUEST_TIMEOUT #
                      (if int a < max_retries - 1
                       then [BackoffSleep (BACKOFF_MULTIPLIER ^ a)] else [])) (a # as))"
    using fl fb n2(4) by (simp add: bo_def)
  from n2(1,2) tr f show ?case
    by blast
qed

lemma calls_filter: "calls (filter (\<lambda>ev. \<not> is_limiter_event ev) evs) = calls evs"
  by (induction evs rule: calls.induct) auto

lemma backoffs_filter: "backoffs (filter (\<lambda>ev. \<not> is_limiter_event ev) evs) = backoffs evs"
  by (induction evs rule: backoffs.induct) auto

lemma backoffs_append: "backoffs (a @ b) = backoffs a @ backoffs b"
  by (induction a rule: backoffs.induct) auto

lemma calls_attempts:
  "calls (concat (map (\<lambda>a. ApiCall name x tmo # (if P a then [BackoffSleep (f a)] else [])) as))
     = replicate (length as) (name, x, tmo)"
  by (induction as) auto

lemma backoffs_attempts:
  "backoffs (concat (map (\<lambda>a. ApiCall name x tmo # (if P a then [BackoffSleep (f a)] else [])) as))
     = map f (filter P as)"
  by (induction as) auto

section \<open>Evaluating the preprocessing and the runs\<close>

lemma sorted_terms_eval:
  "sort_key (\<lambda>x. - int (length (fst x))) PROVIDER_TERMS =
     [(''ChatGPT API'', ''the AI API''),
      (''OpenAI API'', ''the AI API''),
      (''Chat GPT'', ''the AI assistant''),
      (''OpenAI's'', ''the AI provider's''),
      (''ChatGPT'', ''the AI assistant''),
      (''chatgpt'', ''the AI assistant''),
      (''GPT-3.5'', ''the language model''),
      (''gpt-3.5'', ''the language model''),
      (''OpenAI'', ''the AI provider''),
      (''openai'', ''the AI provider''),
      (''GPT-4'', ''the advanced language model''),
      (''GPT-3'', ''the language model''),
      (''gpt-4'', ''the advanced language model'')]"
  by (simp add: PROVIDER_TERMS_def)

lemmas preprocess_eval = preprocess_for_translation_def clean_text_def normalize_provider_terms_def
  sorted_terms_eval u_def is_control_def is_blank_def is_space_def py_strip_def term_matches_def
  boundary_def is_word_def first_char_def ascii_alnum_def ci_eq_def ascii_lower_def Let_def

lemma preprocess_Hello:
  "preprocess_for_translation ascii_alnum (u ''Hello'') True = u ''Hello''"
  by (simp add: preprocess_eval)

lemma validate_Hello_marhaba: "fst (validate_translation (u ''Hello'') marhaba)"
  by (simp add: validate_translation_def marhaba_def u_def Let_def py_strip_def is_space_def
      MIN_TRANSLATION_LENGTH_def has_arabic_chars_def is_arabic_def MIN_ARABIC_CHAR_RATIO_def
      get_arabic_char_ratio_def MIN_LENGTH_RATIO_def MAX_LENGTH_RATIO_def has_mojibake_def
      mojibake_patterns_def)

lemma postprocess_marhaba: "postprocess_translation marhaba = marhaba"
  by (simp add: postprocess_translation_def clean_arabic_text_def marhaba_def normalize_alef_def
      normalize_teh_marbuta_def is_space_def py_strip_def)

lemma upt_3: "[0..<3] = [0, 1, 2::nat]"
  by (simp add: upt_rec)

lemma flaky_run:
  "translate_with_retry flaky_runtime (nvidia_pipeline [''text''] True) (u ''Hello'') 3
     (init_state None []) =
   ((Some marhaba, ''nvidia'', None),
    (init_state None [])\<lparr>trace :=
       [ApiCall ''nvidia'' (u ''Hello'') 30, BackoffSleep 1, ApiCall ''nvidia'' (u ''Hello'') 30]\<rparr>)"
  by (simp add: translate_with_retry_def nvidia_pipeline_def flaky_runtime_def preprocess_Hello
      api_order_def upt_3 attempt_def rate_limit_def init_state_def REQUEST_TIMEOUT_def
      validate_Hello_marhaba postprocess_marhaba BACKOFF_MULTIPLIER_def Let_def)

lemma fallback_run:
  "translate_with_retry fallback_runtime (nvidia_pipeline [''text''] True) (u ''Hello'') 3
     (init_state None []) =
   ((Some marhaba, ''fanar'', None),
    (init_state None [])\<lparr>trace :=
       [ApiCall ''nvidia'' (u ''Hello'') 30, BackoffSleep 1,
        ApiCall ''nvidia'' (u ''Hello'') 30, BackoffSleep 2,
        ApiCall ''nvidia'' (u ''Hello'') 30,
        ApiCall ''fanar'' (u ''Hello'') 30]\<rparr>)"
  by (simp add: translate_with_retry_def nvidia_pipeline_def fallback_runtime_def preprocess_Hello
      api_order_def upt_3 attempt_def rate_limit_def init_state_def REQUEST_TIMEOUT_def
      validate_Hello_marhaba postprocess_marhaba BACKOFF_MULTIPLIER_def Let_def)

lemma failing_run:
  "translate_with_retry failing_runtime (nvidia_pipeline [''text''] False) (u ''Hello'') 3
     (init_state (Some 40) []) =
   ((None, ''failed'', Some ''All API attempts exhausted''),
    (init_state (Some 40) [])\<lparr>
       limiter := Some \<lparr>rpm = 40, interval = 3 / 2, timestamps = [1, 5, 9]\<rparr>,
       trace :=
         [ClockRead 0, ClockRead 1, ApiCall ''nvidia'' (u ''Hello'') 30, BackoffSleep 1,
          ClockRead 4, ClockRead 5, ApiCall ''nvidia'' (u ''Hello'') 30, BackoffSleep 2,
          ClockRead 8, ClockRead 9, ApiCall ''nvidia'' (u ''Hello'') 30]\<rparr>)"
  by (simp add: translate_with_retry_def nvidia_pipeline_def failing_runtime_def preprocess_Hello
      api_order_def upt_3 attempt_def rate_limit_def init_state_def REQUEST_TIMEOUT_def
      BACKOFF_MULTIPLIER_def Let_def get_wait_time_def acquire_def RateLimiter_def)

theorem translate_with_retry_first_valid_wins_witness:
  "translate_with_retry fallback_runtime (nvidia_pipeline [''text''] True) (u ''Hello'') 3
     (init_state None []) =
   ((Some marhaba, ''fanar'', None),
    (init_state None [])\<lparr>trace :=
       [ApiCall ''nvidia'' (u ''Hello'') 30, BackoffSleep 1,
        ApiCall ''nvidia'' (u ''Hello'') 30, BackoffSleep 2,
        ApiCall ''nvidia'' (u ''Hello'') 30,
        ApiCall ''fanar'' (u ''Hello'') 30]\<rparr>)
   \<and> api fallback_runtime ''fanar'' (u ''Hello'') 30
         [ApiCall ''nvidia'' (u ''Hello'') 30, BackoffSleep 1,
          ApiCall ''nvidia'' (u ''Hello'') 30, BackoffSleep 2,
          ApiCall ''nvidia'' (u ''Hello'') 30] = Returned True (Some marhaba) None
   \<and> translate_with_retry flaky_runtime (nvidia_pipeline [''text''] True) (u ''Hello'') 3
         (init_state None []) =
       ((Some marhaba, ''nvidia'', None),
        (init_state None [])\<lparr>trace :=
           [ApiCall ''nvidia'' (u ''Hello'') 30, BackoffSleep 1,
            ApiCall ''nvidia'' (u ''Hello'') 30]\<rparr>)
   \<and> api flaky_runtime ''nvidia'' (u ''Hello'') 30
         [ApiCall ''nvidia'' (u ''Hello'') 30, BackoffSleep 1] = Returned True (Some marhaba) None
   \<and> fst (translate_with_retry failing_runtime (nvidia_pipeline [''text''] False) (u ''Hello'') 3
         (init_state (Some 40) [])) = (None, ''failed'', Some ''All API attempts exhausted'')
   \<and> calls (trace (snd (translate_with_retry failing_runtime (nvidia_pipeline [''text''] False)
         (u ''Hello'') 3 (init_state (Some 40) []))))
       = replicate 3 (''nvidia'', u ''Hello'', 30)
   \<and> fst (validate_translation (u ''Hello'') marhaba)
   \<and> postprocess_translation marhaba = marhaba
   \<and> primary_api (nvidia_pipeline [''text''] True) = ''nvidia''
   \<and> enable_fallback (nvidia_pipeline [''text''] True)
   \<and> \<not> enable_fallback (nvidia_pipeline [''text''] False)
   \<and> limiter_ok (init_state (Some 40) [])"
  using translate_with_retry_first_valid_wins [OF fallback_run]
    translate_with_retry_first_valid_wins [OF flaky_run]
    translate_with_retry_first_valid_wins [OF failing_run]
    fallback_run flaky_run failing_run validate_Hello_marhaba postprocess_marhaba
  by (simp add: fallback_runtime_def flaky_runtime_def nvidia_pipeline_def limiter_ok_def
      init_state_def RateLimiter_def numeral_3_eq_3)

text \<open>
  C2. With fallback disabled, a limiter that cannot raise and a primary provider whose
  answer to the preprocessed text is never accepted (it reports failure, raises, or the
  validator rejects the translation), \<open>translate_with_retry\<close> returns
  \<open>(None, "failed", "All API attempts exhausted")\<close> after exactly \<open>max_retries\<close> calls of
  the provider (none when \<open>max_retries\<close> is negative). Apart from what the limiter does,
  the events are the calls, each but the last followed by a back-off sleep of
  \<open>BACKOFF_MULTIPLIER ** attempt\<close> seconds: the exponents are 0 to \<open>max_retries - 2\<close>.
\<close>

theorem translate_with_retry_exhausted:
  assumes fallback: "\<not> enable_fallback pl"
    and never: "\<forall>h. \<not> accepted text
        (api rt (if primary_api pl = ''nvidia'' then ''nvidia'' else ''fanar'')
           (preprocess_for_translation (isalnum rt) text (normalize_terms pl)) REQUEST_TIMEOUT h)"
    and ok: "limiter_ok st"
    and run: "translate_with_retry rt pl text max_retries st = (res, st')"
  shows "res = (None, ''failed'', Some ''All API attempts exhausted'')
     \<and> (\<exists>new. trace st' = trace st @ new
           \<and> int (length (calls new)) = max 0 max_retries
           \<and> backoffs new = map (\<lambda>attempt. BACKOFF_MULTIPLIER ^ attempt) [0..<nat max_retries - 1]
           \<and> filter (\<lambda>ev. \<not> is_limiter_event ev) new =
               concat (map (\<lambda>attempt.
                   ApiCall (if primary_api pl = ''nvidia'' then ''nvidia'' else ''fanar'')
                     (preprocess_for_translation (isalnum rt) text (normalize_terms pl))
                     REQUEST_TIMEOUT
                   # (if int attempt < max_retries - 1
                      then [BackoffSleep (BACKOFF_MULTIPLIER ^ attempt)] else []))
                 [0..<nat max_retries]))"
proof -
  define processed where
    "processed = preprocess_for_translation (isalnum rt) text (normalize_terms pl)"
  define primary where "primary = (if primary_api pl = ''nvidia'' then ''nvidia'' else ''fanar'')"
  define attempts where "attempts = (\<lambda>attempt.
      ApiCall primary processed REQUEST_TIMEOUT
      # (if int attempt < max_retries - 1 then [BackoffSleep (BACKOFF_MULTIPLIER ^ attempt)] else []))"
  have ord: "api_order pl = [primary]"
    using fallback by (simp add: api_order_def primary_def)
  obtain r st1 where rl:
    "retry_loop rt text processed primary max_retries [0..<nat max_retries] st = (r, st1)"
    by (cases "retry_loop rt text processed primary max_retries [0..<nat max_retries] st")
  from never have never': "\<forall>h. \<not> accepted text (api rt primary processed REQUEST_TIMEOUT h)"
    by (simp add: primary_def processed_def)
  from retry_loop_fails [OF never' ok rl] obtain new where n: "r = None"
    "trace st1 = trace st @ new"
    "filter (\<lambda>ev. \<not> is_limiter_event ev) new = concat (map attempts [0..<nat max_retries])"
    unfolding attempts_def by blast
  from run rl n(1) ord have res: "res = (None, ''failed'', Some ''All API attempts exhausted'')"
    and st': "st' = st1"
    by (simp_all add: translate_with_retry_def processed_def [symmetric])
  have "calls new = calls (concat (map attempts [0..<nat max_retries]))"
    using n(3) calls_filter [of new] by simp
  then have "length (calls new) = nat max_retries"
    unfolding attempts_def by (simp add: calls_attempts)
  then have c: "int (length (calls new)) = max 0 max_retries"
    by simp
  have "(\<lambda>a::nat. int a < max_retries - 1) = (\<lambda>a. a < nat (max_retries - 1))"
    by (rule ext) auto
  then have "filter (\<lambda>a::nat. int a < max_retries - 1) [0..<nat max_retries]
      = [0..<min (nat (max_retries - 1)) (nat max_retries)]"
    by (simp add: filter_upt_less)
  also have "min (nat (max_retries - 1)) (nat max_retries) = nat max_retries - 1"
    by simp
  finally have flt: "filter (\<lambda>a::nat. int a < max_retries - 1) [0..<nat max_retries]
      = [0..<nat max_retries - 1]" .
  have "backoffs new = backoffs (concat (map attempts [0..<nat max_retries]))"
    using n(3) backoffs_filter [of new] by simp
  then have b: "backoffs new = map (\<lambda>attempt. BACKOFF_MULTIPLIER ^ attempt) [0..<nat max_retries - 1]"
    unfolding attempts_def by (simp add: backoffs_attempts flt)
  from res st' n(2,3) c b show ?thesis
    unfolding attempts_def primary_def processed_def by blast
qed

theorem translate_with_retry_exhausted_witness:
  "translate_with_retry failing_runtime (nvidia_pipeline [''text''] False) (u ''Hello'') 3
     (init_state (Some 40) []) =
   ((None, ''failed'', Some ''All API attempts exhausted''),
    (init_state (Some 40) [])\<lparr>
       limiter := Some \<lparr>rpm = 40, interval = 3 / 2, timestamps = [1, 5, 9]\<rparr>,
       trace :=
         [ClockRead 0, ClockRead 1, ApiCall ''nvidia'' (u ''Hello'') 30, BackoffSleep 1,
          ClockRead 4, ClockRead 5, ApiCall ''nvidia'' (u ''Hello'') 30, BackoffSleep 2,
          ClockRead 8, ClockRead 9, ApiCall ''nvidia'' (u ''Hello'') 30]\<rparr>)
   \<and> \<not> enable_fallback (nvidia_pipeline [''text''] False)
   \<and> limiter_ok (init_state (Some 40) [])
   \<and> backoffs [ClockRead 0, ClockRead 1, ApiCall ''nvidia'' (u ''Hello'') 30, BackoffSleep 1,
          ClockRead 4, ClockRead 5, ApiCall ''nvidia'' (u ''Hello'') 30, BackoffSleep 2,
          ClockRead 8, ClockRead 9, ApiCall ''nvidia'' (u ''Hello'') 30] = [1, 2]"
proof -
  have fb: "\<not> enable_fallback (nvidia_pipeline [''text''] False)"
    by (simp add: nvidia_pipeline_def)
  have never: "\<forall>h. \<not> accepted (u ''Hello'')
        (api failing_runtime
           (if primary_api (nvidia_pipeline [''text''] False) = ''nvidia'' then ''nvidia'' else ''fanar'')
           (preprocess_for_translation (isalnum failing_runtime) (u ''Hello'')
              (normalize_terms (nvidia_pipeline [''text''] False))) REQUEST_TIMEOUT h)"
    by (simp add: failing_runtime_def)
  have ok: "limiter_ok (init_state (Some 40) [])"
    by (simp add: limiter_ok_def init_state_def RateLimiter_def)
  from translate_with_retry_exhausted [OF fb never ok failing_run] failing_run fb ok
  show ?thesis
    by (simp add: init_state_def RateLimiter_def)
qed

section \<open>Properties of the preprocessing\<close>

lemma ci_prefix_iff:
  "ci_prefix pat t \<longleftrightarrow> length pat \<le> length t \<and> list_all2 ci_eq pat (take (length pat) t)"
proof (induction pat t rule: ci_prefix.induct)
  case (1 cs)
  then show ?case by simp
next
  case (2 p ps)
  then show ?case by simp
next
  case (3 p ps c cs)
  then show ?case by auto
qed

lemma first_char_rev: "xs \<noteq> [] \<Longrightarrow> first_char (rev xs) = Some (last xs)"
  by (cases xs rule: rev_cases) (simp_all add: first_char_def)

lemma term_matches_iff:
  assumes "pat \<noteq> []"
  shows "term_matches alnum pat prev t \<longleftrightarrow>
     length pat \<le> length t
     \<and> list_all2 ci_eq pat (take (length pat) t)
     \<and> boundary alnum prev (first_char t)
     \<and> boundary alnum (Some (last (take (length pat) t))) (first_char (drop (length pat) t))"
proof (cases "length pat \<le> length t")
  case True
  with assms have "take (length pat) t \<noteq> []"
    by (cases t) auto
  then show ?thesis
    using True by (auto simp: term_matches_def ci_prefix_iff first_char_rev)
next
  case False
  then show ?thesis
    by (simp add: term_matches_def ci_prefix_iff)
qed

lemma sub_term_match:
  assumes pat: "pat \<noteq> []" and len: "length m = length pat"
    and ci: "list_all2 ci_eq pat m"
    and left: "boundary alnum prev (Some (hd m))"
    and right: "boundary alnum (Some (last m)) (first_char post)"
  shows "sub_term alnum pat repl prev (m @ post)
           = repl @ sub_term alnum pat repl (Some (last m)) post"
proof -
  from pat len obtain c cs where m: "m = c # cs"
    by (cases m) auto
  have td: "take (length pat) (m @ post) = m" "drop (length pat) (m @ post) = post"
    using len by simp_all
  have "first_char (m @ post) = Some (hd m)"
    using m by (simp add: first_char_def)
  then have tm: "term_matches alnum pat prev (m @ post)"
    using pat len ci left right unfolding term_matches_iff [OF pat] td by simp
  have "sub_term alnum pat repl prev ((c # cs) @ post)
      = repl @ sub_term alnum pat repl (first_char (rev (take (length pat) ((c # cs) @ post))))
                 (drop (length pat) ((c # cs) @ post))"
    using tm pat m by simp
  moreover have "take (length pat) ((c # cs) @ post) = m" "drop (length pat) ((c # cs) @ post) = post"
    using td m by simp_all
  moreover have "first_char (rev m) = Some (last m)"
    by (rule first_char_rev) (simp add: m)
  ultimately show ?thesis
    using m by simp
qed

lemma sub_term_skip:
  assumes "\<not> (length pat \<le> length (c # cs)
       \<and> list_all2 ci_eq pat (take (length pat) (c # cs))
       \<and> boundary alnum prev (Some c)
       \<and> boundary alnum (Some (last (take (length pat) (c # cs))))
            (first_char (drop (length pat) (c # cs))))"
  shows "sub_term alnum pat repl prev (c # cs) = c # sub_term alnum pat repl (Some c) cs"
proof (cases "pat = []")
  case True
  then show ?thesis by simp
next
  case False
  with assms have "\<not> term_matches alnum pat prev (c # cs)"
    by (simp add: term_matches_iff first_char_def)
  then show ?thesis by simp
qed

lemma api_loop_texts:
  assumes run: "api_loop rt text processed max_retries apis st = (res, st')"
  shows "\<exists>new. trace st' = trace st @ new
           \<and> (\<forall>c \<in> set (calls new). fst c \<in> set apis \<and> snd c = (processed, REQUEST_TIMEOUT))"
proof -
  from api_loop_summary [OF run] obtain new ks where s: "trace st' = trace st @ new"
    "calls new = concat (map (\<lambda>(n, k). replicate k (n, processed, REQUEST_TIMEOUT)) (zip apis ks))"
    by blast
  have "\<forall>c \<in> set (calls new). fst c \<in> set apis \<and> snd c = (processed, REQUEST_TIMEOUT)"
    unfolding s(2) by (auto dest: set_zip_leftD)
  with s(1) show ?thesis
    by blast
qed

text \<open>
  C9. Every provider call that \<open>translate_with_retry\<close> makes carries the preprocessed
  text, not the original. With normalization on, preprocessing cleans the text and then
  rewrites the configured terms one after the other, longest first. One rewriting scans
  the text from the left: where the term stands, letter case aside, between two word
  boundaries, its replacement is written and the scan goes on behind the match; anywhere
  else the character is kept.
\<close>

theorem provider_calls_use_normalized_text:
  assumes run: "translate_with_retry rt pl text max_retries st = (res, st')"
  shows "(\<exists>new. trace st' = trace st @ new
            \<and> (\<forall>c \<in> set (calls new).
                  fst (snd c) = preprocess_for_translation (isalnum rt) text (normalize_terms pl)))
     \<and> preprocess_for_translation alnum text True =
         fold (\<lambda>(original, replacement). sub_term alnum (u original) (u replacement) None)
           [(''ChatGPT API'', ''the AI API''),
            (''OpenAI API'', ''the AI API''),
            (''Chat GPT'', ''the AI assistant''),
            (''OpenAI's'', ''the AI provider's''),
            (''ChatGPT'', ''the AI assistant''),
            (''chatgpt'', ''the AI assistant''),
            (''GPT-3.5'', ''the language model''),
            (''gpt-3.5'', ''the language model''),
            (''OpenAI'', ''the AI provider''),
            (''openai'', ''the AI provider''),
            (''GPT-4'', ''the advanced language model''),
            (''GPT-3'', ''the language model''),
            (''gpt-4'', ''the advanced language model'')]
           (clean_text text)
     \<and> (pat \<noteq> [] \<and> length m = length pat \<and> list_all2 ci_eq pat m
          \<and> boundary alnum prev (Some (hd m)) \<and> boundary alnum (Some (last m)) (first_char post)
          \<longrightarrow> sub_term alnum pat repl prev (m @ post)
                = repl @ sub_term alnum pat repl (Some (last m)) post)
     \<and> (\<not> (length pat \<le> length (c # cs)
             \<and> list_all2 ci_eq pat (take (length pat) (c # cs))
             \<and> boundary alnum prev (Some c)
             \<and> boundary alnum (Some (last (take (length pat) (c # cs))))
                  (first_char (drop (length pat) (c # cs))))
          \<longrightarrow> sub_term alnum pat repl prev (c # cs) = c # sub_term alnum pat repl (Some c) cs)
     \<and> sub_term alnum pat repl prev [] = []"
proof -
  from run have loop: "api_loop rt text
      (preprocess_for_translation (isalnum rt) text (normalize_terms pl)) max_retries
      (api_order pl) st = (res, st')"
    by (simp add: translate_with_retry_def)
  from api_loop_texts [OF loop] have a: "\<exists>new. trace st' = trace st @ new
      \<and> (\<forall>c \<in> set (calls new).
            fst (snd c) = preprocess_for_translation (isalnum rt) text (normalize_terms pl))"
    by fastforce
  have b: "preprocess_for_translation alnum text True =
         fold (\<lambda>(original, replacement). sub_term alnum (u original) (u replacement) None)
           (sort_key (\<lambda>x. - int (length (fst x))) PROVIDER_TERMS) (clean_text text)"
    by (simp add: preprocess_for_translation_def normalize_provider_terms_def Let_def)
  show ?thesis
    using a b sub_term_match [of pat m alnum prev post repl]
      sub_term_skip [of pat c cs alnum prev repl]
    unfolding sorted_terms_eval by simp
qed


lemma preprocess_ChatGPT:
  "preprocess_for_translation ascii_alnum (u ''ChatGPT is great'') True
     = u ''the AI assistant is great''"
  by (simp add: preprocess_eval)

lemma validate_ChatGPT_marhaba: "fst (validate_translation (u ''ChatGPT is great'') marhaba)"
  by (simp add: validate_translation_def marhaba_def u_def Let_def py_strip_def is_space_def
      MIN_TRANSLATION_LENGTH_def has_arabic_chars_def is_arabic_def MIN_ARABIC_CHAR_RATIO_def
      get_arabic_char_ratio_def MIN_LENGTH_RATIO_def MAX_LENGTH_RATIO_def has_mojibake_def
      mojibake_patterns_def)

lemma chatgpt_run:
  "translate_with_retry arabic_runtime (nvidia_pipeline [''text''] False)
     (u ''ChatGPT is great'') 3 (init_state None []) =
   ((Some marhaba, ''nvidia'', None),
    (init_state None [])\<lparr>trace := [ApiCall ''nvidia'' (u ''the AI assistant is great'') 30]\<rparr>)"
  by (simp add: translate_with_retry_def nvidia_pipeline_def arabic_runtime_def preprocess_ChatGPT
      api_order_def upt_3 attempt_def rate_limit_def init_state_def REQUEST_TIMEOUT_def
      validate_ChatGPT_marhaba postprocess_marhaba Let_def)

theorem provider_calls_use_normalized_text_witness:
  "translate_with_retry arabic_runtime (nvidia_pipeline [''text''] False)
     (u ''ChatGPT is great'') 3 (init_state None []) =
   ((Some marhaba, ''nvidia'', None),
    (init_state None [])\<lparr>trace := [ApiCall ''nvidia'' (u ''the AI assistant is great'') 30]\<rparr>)
   \<and> preprocess_for_translation ascii_alnum (u ''ChatGPT is great'') True
       = u ''the AI assistant is great''
   \<and> sub_term ascii_alnum (u ''ChatGPT'') (u ''the AI assistant'') None (u ''chatgpt now'')
       = u ''the AI assistant now''
   \<and> sub_term ascii_alnum (u ''ChatGPT'') (u ''the AI assistant'') None (u ''ChatGPTs'')
       = u ''ChatGPTs''"
proof -
  note inst = provider_calls_use_normalized_text [OF chatgpt_run,
      where alnum = ascii_alnum and repl = "u ''the AI assistant''" and pat = "u ''ChatGPT''"]
  have a: "sub_term ascii_alnum (u ''ChatGPT'') (u ''the AI assistant'') None (u ''chatgpt now'')
       = u ''the AI assistant'' @
         sub_term ascii_alnum (u ''ChatGPT'') (u ''the AI assistant'') (Some 0x74) (u '' now'')"
    using inst [where m = "u ''chatgpt''" and post = "u '' now''" and prev = None]
    by (simp add: u_def ci_eq_def ascii_lower_def boundary_def is_word_def ascii_alnum_def
        first_char_def)
  have b: "sub_term ascii_alnum (u ''ChatGPT'') (u ''the AI assistant'') (Some 0x74) (u '' now'')
       = u '' now''"
    by (simp add: preprocess_eval)
  have c: "sub_term ascii_alnum (u ''ChatGPT'') (u ''the AI assistant'') None (u ''ChatGPTs'')
       = u ''ChatGPTs''"
    by (simp add: preprocess_eval)
  from a b c chatgpt_run preprocess_ChatGPT show ?thesis
    by (simp add: u_def)
qed

section \<open>Properties of the checkpoints\<close>

lemma glob_two:
  "glob_checkpoints [(''checkpoint_50.csv'', a), (''checkpoint_100.csv'', b)]
     = [''checkpoint_50.csv'', ''checkpoint_100.csv'']"
  by (simp add: glob_checkpoints_def)

lemma sort_two:
  "sort [''checkpoint_50.csv'', ''checkpoint_100.csv'']
     = [''checkpoint_100.csv'', ''checkpoint_50.csv'']"
  by code_simp

lemma find_two:
  "find_checkpoint [(''checkpoint_50.csv'', a), (''checkpoint_100.csv'', b)] None
     = Some ''checkpoint_50.csv''"
  by (simp add: find_checkpoint_def glob_two sort_two)

lemma stem_50: "stem ''checkpoint_50.csv'' = ''checkpoint_50''"
  by (simp add: stem_def basename_def)

lemma split_50: "split_on CHR ''_'' ''checkpoint_50'' = [''checkpoint'', ''50'']"
  by simp

lemma int_50: "py_int ''50'' = Inr 50"
  by (simp add: py_int_def is_space_def is_digit_def)

text \<open>
  C4 says that resuming without a name picks the checkpoint with the highest row count.
  The code sorts the paths as strings and takes the last: with \<open>checkpoint_50.csv\<close> and
  \<open>checkpoint_100.csv\<close> in the directory it loads \<open>checkpoint_50.csv\<close> and resumes at
  row 50, since the character 1 sorts before the character 5.
\<close>

theorem latest_checkpoint_is_last_in_name_order:
  "find_checkpoint [(''checkpoint_50.csv'', Inr ck50), (''checkpoint_100.csv'', Inr ck100)] None
     = Some ''checkpoint_50.csv''
   \<and> load_checkpoint [(''checkpoint_50.csv'', Inr ck50), (''checkpoint_100.csv'', Inr ck100)]
         result_df None
     = Inr (copy_columns ck50 result_df, 50)"
  by (simp add: load_checkpoint_def find_two stem_50 split_50 int_50)

lemma dict_update_names:
  "map fst (dict_update k v ps) = (if k \<in> fst ` set ps then map fst ps else map fst ps @ [k])"
  by (induction ps) auto

lemma map_of_dict_update: "map_of (dict_update k v ps) = (map_of ps)(k \<mapsto> v)"
  by (induction ps) (auto simp: fun_eq_iff)

lemma set_column_series_frame:
  assumes "index df \<noteq> []" and "name \<in> set (column_names df)"
  shows "index (set_column_series df name labels values) = index df"
    and "column_names (set_column_series df name labels values) = column_names df"
    and "map_of (columns (set_column_series df name labels values))
           = (map_of (columns df))(name \<mapsto> align labels values (index df))"
  using assms
  by (simp_all add: set_column_series_def column_names_def dict_update_names map_of_dict_update)

lemma set_column_series_names:
  assumes "name \<in> set (column_names df)"
  shows "column_names (set_column_series df name labels values) = column_names df"
  using assms
  by (auto simp: set_column_series_def column_names_def dict_update_names Let_def
      case_prod_unfold image_image o_def)

lemma copy_columns_fold_names:
  "column_names
     (fold (\<lambda>(col, values) result_df.
              if col \<in> set (column_names result_df)
              then set_column_series result_df col labels values
              else result_df) cols result_df)
   = column_names result_df"
proof (induction cols arbitrary: result_df)
  case Nil
  then show ?case by simp
next
  case (Cons p cols)
  obtain col vals where p: "p = (col, vals)"
    by (cases p)
  show ?case
    using Cons.IH set_column_series_names [of col result_df labels vals]
    by (simp add: p)
qed

lemma copy_columns_fold_frame:
  assumes "index result_df \<noteq> []"
  shows "index
     (fold (\<lambda>(col, values) result_df.
              if col \<in> set (column_names result_df)
              then set_column_series result_df col labels values
              else result_df) cols result_df)
     = index result_df
   \<and> (\<forall>c. c \<notin> fst ` set cols \<longrightarrow>
         map_of (columns
           (fold (\<lambda>(col, values) result_df.
              if col \<in> set (column_names result_df)
              then set_column_series result_df col labels values
              else result_df) cols result_df)) c
         = map_of (columns result_df) c)
   \<and> (distinct (map fst cols) \<longrightarrow>
        (\<forall>c vs. (c, vs) \<in> set cols \<longrightarrow> c \<in> set (column_names result_df) \<longrightarrow>
           map_of (columns
             (fold (\<lambda>(col, values) result_df.
                if col \<in> set (column_names result_df)
                then set_column_series result_df col labels values
                else result_df) cols result_df)) c
           = Some (align labels vs (index result_df))))"
  using assms
proof (induction cols arbitrary: result_df)
  case Nil
  then show ?case by simp
next
  case (Cons p cols)
  obtain col vals where p: "p = (col, vals)"
    by (cases p)
  define step where "step = (if col \<in> set (column_names result_df)
      then set_column_series result_df col labels vals else result_df)"
  have idx: "index step = index result_df"
    using Cons.prems by (simp add: step_def set_column_series_frame)
  have names: "column_names step = column_names result_df"
    by (simp add: step_def set_column_series_names)
  have other: "map_of (columns step) c = map_of (columns result_df) c" if "c \<noteq> col" for c
    using Cons.prems that by (simp add: step_def set_column_series_frame)
  have this_col: "map_of (columns step) col = Some (align labels vals (index result_df))"
    if "col \<in> set (column_names result_df)"
    using Cons.prems that by (simp add: step_def set_column_series_frame)
  from idx Cons.prems have "index step \<noteq> []"
    by simp
  note IH = Cons.IH [OF this]
  have fold_eq: "fold (\<lambda>(col, values) result_df.
              if col \<in> set (column_names result_df)
              then set_column_series result_df col labels values
              else result_df) (p # cols) result_df
      = fold (\<lambda>(col, values) result_df.
              if col \<in> set (column_names result_df)
              then set_column_series result_df col labels values
              else result_df) cols step"
    by (simp add: p step_def)
  show ?case
    unfolding fold_eq
  proof (intro conjI allI impI)
    show "index (fold (\<lambda>(col, values) result_df.
              if col \<in> set (column_names result_df)
              then set_column_series result_df col labels values
              else result_df) cols step) = index result_df"
      using IH idx by simp
  next
    fix c
    assume "c \<notin> fst ` set (p # cols)"
    then have "c \<noteq> col" "c \<notin> fst ` set cols"
      by (auto simp: p)
    then show "map_of (columns (fold (\<lambda>(col, values) result_df.
              if col \<in> set (column_names result_df)
              then set_column_series result_df col labels values
              else result_df) cols step)) c = map_of (columns result_df) c"
      using IH other by simp
  next
    fix c vs
    assume d: "distinct (map fst (p # cols))" and mem: "(c, vs) \<in> set (p # cols)"
      and c: "c \<in> set (column_names result_df)"
    from d have d': "distinct (map fst cols)" and fresh: "col \<notin> fst ` set cols"
      by (auto simp: p)
    show "map_of (columns (fold (\<lambda>(col, values) result_df.
              if col \<in> set (column_names result_df)
              then set_column_series result_df col labels values
              else result_df) cols step)) c = Some (align labels vs (index result_df))"
    proof (cases "(c, vs) \<in> set cols")
      case True
      with IH d' c names idx show ?thesis
        by simp
    next
      case False
      with mem have "c = col" "vs = vals"
        by (auto simp: p)
      with IH fresh this_col c show ?thesis
        by simp
    qed
  qed
qed

lemma copy_columns_fold_filter:
  "fold (\<lambda>(col, values) result_df.
           if col \<in> set (column_names result_df)
           then set_column_series result_df col labels values
           else result_df) cols result_df
   = fold (\<lambda>(col, values) result_df. set_column_series result_df col labels values)
       (filter (\<lambda>(col, values). col \<in> set (column_names result_df)) cols) result_df"
proof (induction cols arbitrary: result_df)
  case Nil
  then show ?case by simp
next
  case (Cons p cols)
  obtain col vals where p: "p = (col, vals)"
    by (cases p)
  show ?case
  proof (cases "col \<in> set (column_names result_df)")
    case True
    have "column_names (set_column_series result_df col labels vals) = column_names result_df"
      using True by (rule set_column_series_names)
    with Cons.IH [of "set_column_series result_df col labels vals"] True show ?thesis
      by (simp add: p)
  next
    case False
    with Cons.IH [of result_df] show ?thesis
      by (simp add: p)
  qed
qed

text \<open>
  C6, amended. Loading a checkpoint never fails because of its columns, whatever they
  are. When the file is found, is parsed and carries a row count in its name,
  \<open>_load_checkpoint\<close> returns that row count and a result with the same column names
  as before: the checkpoint's columns that the result also has are assigned to the result
  one after the other, \<open>result_df[col] = checkpoint_df[col]\<close>, and its other columns are
  skipped, so that a checkpoint with no column of the result leaves the result as it was.
  \<open>translate_dataset\<close> then goes on to translate the rows from that row count.
\<close>

theorem load_checkpoint_copies_common_columns:
  assumes found: "find_checkpoint files checkpoint_name = Some f"
    and content: "map_of files f = Some (Inr checkpoint_df)"
    and parts: "split_on CHR ''_'' (stem f) = part0 # part1 # parts"
    and count: "py_int part1 = Inr k"
  shows "\<exists>out. load_checkpoint files result_df checkpoint_name = Inr (out, k)
     \<and> out = fold (\<lambda>(col, values) result_df.
                     set_column_series result_df col (index checkpoint_df) values)
               (filter (\<lambda>(col, values). col \<in> set (column_names result_df))
                  (columns checkpoint_df))
               result_df
     \<and> column_names out = column_names result_df
     \<and> (set (column_names checkpoint_df) \<inter> set (column_names result_df) = {}
          \<longrightarrow> out = result_df)
     \<and> (files = checkpoint_dir st \<and> result_df = init_result_df pl df \<longrightarrow>
          translate_dataset rt pl df True checkpoint_name st
            = translate_rows rt pl df [k..int (nrows df) - 1]
                (out, st\<lparr>stats := (stats st)\<lparr>total := nrows df\<rparr>\<rparr>))"
proof -
  define out where "out = copy_columns checkpoint_df result_df"
  have load: "load_checkpoint files result_df checkpoint_name = Inr (out, k)"
    using found content parts count by (simp add: load_checkpoint_def out_def)
  have names: "column_names out = column_names result_df"
    unfolding out_def copy_columns_def by (rule copy_columns_fold_names)
  have common: "out = fold (\<lambda>(col, values) result_df.
                     set_column_series result_df col (index checkpoint_df) values)
               (filter (\<lambda>(col, values). col \<in> set (column_names result_df))
                  (columns checkpoint_df))
               result_df"
    unfolding out_def copy_columns_def by (rule copy_columns_fold_filter)
  have none: "out = result_df"
    if "set (column_names checkpoint_df) \<inter> set (column_names result_df) = {}"
  proof -
    have "col \<notin> set (column_names result_df)"
      if "(col, vals) \<in> set (columns checkpoint_df)" for col vals
    proof -
      from that have "col \<in> set (column_names checkpoint_df)"
        unfolding column_names_def by (metis fst_conv imageI set_map)
      with \<open>set (column_names checkpoint_df) \<inter> set (column_names result_df) = {}\<close>
      show ?thesis
        by blast
    qed
    then have "filter (\<lambda>(col, values). col \<in> set (column_names result_df))
        (columns checkpoint_df) = []"
      by (auto simp: filter_empty_conv)
    with common show ?thesis
      by simp
  qed
  have run: "translate_dataset rt pl df True checkpoint_name st
            = translate_rows rt pl df [k..int (nrows df) - 1]
                (out, st\<lparr>stats := (stats st)\<lparr>total := nrows df\<rparr>\<rparr>)"
    if "files = checkpoint_dir st \<and> result_df = init_result_df pl df"
    using that load by (simp add: translate_dataset_def Let_def)
  from load common names none run show ?thesis
    by (intro exI [of _ out] conjI impI)
qed


lemma arabic_Hello:
  assumes "limiter st = None"
  shows "translate_with_retry arabic_runtime (nvidia_pipeline cols fb) (u ''Hello'') MAX_RETRIES st
    = ((Some marhaba, ''nvidia'', None),
       st\<lparr>trace := trace st @ [ApiCall ''nvidia'' (u ''Hello'') 30]\<rparr>)"
  using assms
  by (simp add: translate_with_retry_def nvidia_pipeline_def arabic_runtime_def preprocess_Hello
      api_order_def upt_3 attempt_def rate_limit_def REQUEST_TIMEOUT_def MAX_RETRIES_def
      validate_Hello_marhaba postprocess_marhaba Let_def)

lemma stem_1: "stem ''checkpoint_1.csv'' = ''checkpoint_1''"
  by (simp add: stem_def basename_def)

lemma find_1: "find_checkpoint [(''checkpoint_1.csv'', a)] None = Some ''checkpoint_1.csv''"
  by (simp add: find_checkpoint_def glob_checkpoints_def)

lemma int_1: "py_int ''1'' = Inr 1"
  by (simp add: py_int_def is_space_def is_digit_def)

lemma marhaba_not_empty: "marhaba \<noteq> []"
  by (simp add: marhaba_def)

lemma nvidia_pipeline_fields:
  "columns_to_translate (nvidia_pipeline cols fb) = cols"
  "preserve_all_columns (nvidia_pipeline cols fb) = True"
  "enable_fallback (nvidia_pipeline cols fb) = fb"
  by (simp_all add: nvidia_pipeline_def)

lemma init_state_fields:
  "limiter (init_state None files) = None"
  "checkpoint_dir (init_state rate files) = files"
  "trace (init_state rate files) = []"
  by (simp_all add: init_state_def)

lemmas frame_eval = init_result_df_def set_column_scalar_def nrows_def
  copy_columns_def column_names_def set_column_series_def align_def
  iloc_def set_at_def CHECKPOINT_INTERVAL_def Let_def

lemma init_two_rows:
  "init_result_df (nvidia_pipeline [''text''] fb) two_rows
     = \<lparr>index = [0, 1],
        columns = [(''text'', [CStr (u ''Hello''), CStr (u ''Hello'')]),
                   (''text_ar'', [CNone, CNone]), (''text_api'', [CNone, CNone])]\<rparr>"
  by (simp add: frame_eval two_rows_def nvidia_pipeline_fields)

lemma load_other_run:
  "load_checkpoint [(''checkpoint_1.csv'', Inr other_run_checkpoint)]
     \<lparr>index = [0, 1],
      columns = [(''text'', [CStr (u ''Hello''), CStr (u ''Hello'')]),
                 (''text_ar'', [CNone, CNone]), (''text_api'', [CNone, CNone])]\<rparr> None
   = Inr (\<lparr>index = [0, 1],
           columns = [(''text'', [CStr (u ''Hello''), CNaN]),
                      (''text_ar'', [CNone, CNone]), (''text_api'', [CNone, CNone])]\<rparr>, 1)"
  by (simp add: load_checkpoint_def frame_eval other_run_checkpoint_def find_1 stem_1 int_1)

lemma second_row:
  assumes "limiter st = None"
  shows "fst (translate_rows arabic_runtime (nvidia_pipeline [''text''] fb) two_rows [1]
     (\<lparr>index = [0, 1],
       columns = [(''text'', t), (''text_ar'', [a, b]), (''text_api'', [c, d])]\<rparr>, st))
   = Inr \<lparr>index = [0, 1],
          columns = [(''text'', t), (''text_ar'', [a, CStr marhaba]),
                     (''text_api'', [c, CStr (u ''nvidia'')])]\<rparr>"
  using assms
  by (simp add: frame_eval two_rows_def nvidia_pipeline_fields arabic_Hello marhaba_not_empty)

lemma other_run_resume:
  "fst (translate_dataset arabic_runtime (nvidia_pipeline [''text''] False) two_rows True None
     (init_state None [(''checkpoint_1.csv'', Inr other_run_checkpoint)]))
   = Inr \<lparr>index = [0, 1],
          columns = [(''text'', [CStr (u ''Hello''), CNaN]),
                     (''text_ar'', [CNone, CStr marhaba]),
                     (''text_api'', [CNone, CStr (u ''nvidia'')])]\<rparr>"
proof -
  have rows: "[1..int (nrows two_rows) - 1] = [1]"
    by (simp add: upto.simps nrows_def two_rows_def)
  show ?thesis
    by (simp add: translate_dataset_def init_two_rows init_state_fields load_other_run rows
        second_row Let_def del: translate_rows.simps)
qed


text \<open>
  C6, as stated, fails: a checkpoint written for another column (it lacks \<open>text_ar\<close> and
  \<open>text_api\<close> and has \<open>summary_ar\<close>) is loaded without any error; its column \<open>text\<close> is
  copied, its column \<open>summary_ar\<close> is dropped, and the run goes on to translate row 1.
\<close>

theorem mismatched_checkpoint_is_loaded:
  "column_names other_run_checkpoint
     \<noteq> column_names (init_result_df (nvidia_pipeline [''text''] False) two_rows)
   \<and> fst (translate_dataset arabic_runtime (nvidia_pipeline [''text''] False) two_rows True None
          (init_state None [(''checkpoint_1.csv'', Inr other_run_checkpoint)]))
     = Inr \<lparr>index = [0, 1],
            columns = [(''text'', [CStr (u ''Hello''), CNaN]),
                       (''text_ar'', [CNone, CStr marhaba]),
                       (''text_api'', [CNone, CStr (u ''nvidia'')])]\<rparr>"
  using other_run_resume
  by (simp add: init_two_rows column_names_def other_run_checkpoint_def)

theorem load_checkpoint_copies_common_columns_witness:
  "\<exists>out. load_checkpoint [(''checkpoint_1.csv'', Inr other_run_checkpoint)]
            (init_result_df (nvidia_pipeline [''text''] False) two_rows) None = Inr (out, 1)
     \<and> column_names out = [''text'', ''text_ar'', ''text_api'']
     \<and> map_of (columns out) ''summary_ar'' = None
     \<and> out = set_column_series (init_result_df (nvidia_pipeline [''text''] False) two_rows)
               ''text'' [0] [CStr (u ''Hello'')]
     \<and> translate_dataset arabic_runtime (nvidia_pipeline [''text''] False) two_rows True None
          (init_state None [(''checkpoint_1.csv'', Inr other_run_checkpoint)])
        = translate_rows arabic_runtime (nvidia_pipeline [''text''] False) two_rows [1]
            (out, (init_state None [(''checkpoint_1.csv'', Inr other_run_checkpoint)])
                    \<lparr>stats := (stats (init_state None
                         [(''checkpoint_1.csv'', Inr other_run_checkpoint)]))\<lparr>total := 2\<rparr>\<rparr>)"
proof -
  let ?files = "[(''checkpoint_1.csv'', Inr other_run_checkpoint)]"
  let ?st = "init_state None ?files"
  let ?pl = "nvidia_pipeline [''text''] False"
  let ?r = "init_result_df ?pl two_rows"
  have content: "map_of ?files ''checkpoint_1.csv'' = Some (Inr other_run_checkpoint)"
    by simp
  have parts: "split_on CHR ''_'' (stem ''checkpoint_1.csv'') = ''checkpoint'' # ''1'' # []"
    by (simp add: stem_1)
  from load_checkpoint_copies_common_columns [OF find_1 content parts int_1, of ?r ?st ?pl two_rows arabic_runtime]
  obtain out where out:
    "load_checkpoint ?files ?r None = Inr (out, 1)"
    "out = fold (\<lambda>(col, values) result_df.
                     set_column_series result_df col (index other_run_checkpoint) values)
               (filter (\<lambda>(col, values). col \<in> set (column_names ?r))
                  (columns other_run_checkpoint)) ?r"
    "column_names out = column_names ?r"
    "?files = checkpoint_dir ?st \<and> ?r = init_result_df ?pl two_rows \<longrightarrow>
       translate_dataset arabic_runtime ?pl two_rows True None ?st
         = translate_rows arabic_runtime ?pl two_rows [1..int (nrows two_rows) - 1]
             (out, ?st\<lparr>stats := (stats ?st)\<lparr>total := nrows two_rows\<rparr>\<rparr>)"
    by blast
  from out(3) have names: "column_names out = [''text'', ''text_ar'', ''text_api'']"
    by (simp add: init_two_rows column_names_def)
  then have "''summary_ar'' \<notin> set (column_names out)"
    by simp
  then have foreign: "map_of (columns out) ''summary_ar'' = None"
    by (simp add: column_names_def map_of_eq_None_iff)
  from out(2) have tx: "out = set_column_series ?r ''text'' [0] [CStr (u ''Hello'')]"
    by (simp add: init_two_rows column_names_def other_run_checkpoint_def)
  have rows: "[1..int (nrows two_rows) - 1] = [1]" "nrows two_rows = 2"
    by (simp_all add: upto.simps nrows_def two_rows_def)
  from out(4) have run:
    "translate_dataset arabic_runtime ?pl two_rows True None ?st
       = translate_rows arabic_runtime ?pl two_rows [1]
           (out, ?st\<lparr>stats := (stats ?st)\<lparr>total := 2\<rparr>\<rparr>)"
    by (simp add: init_state_fields rows)
  from out(1) names foreign tx run show ?thesis
    by (intro exI [of _ out] conjI)
qed

section \<open>Resuming from a checkpoint\<close>

lemma map_of_map_column:
  "map_of (map (\<lambda>(n, vs). if n = name then (n, f vs) else (n, vs)) cols) c
     = (if c = name then map_option f (map_of cols c) else map_of cols c)"
  by (induction cols) auto

lemma set_at_frame:
  assumes "idx \<in> set (index df)"
  shows "index (set_at df idx name v) = index df"
    and "c \<noteq> name \<Longrightarrow> map_of (columns (set_at df idx name v)) c = map_of (columns df) c"
  using assms
  by (auto simp: set_at_def Let_def map_of_map_column map_add_def split: option.splits)

lemma set_column_scalar_frame:
  "index (set_column_scalar df name v) = index df"
  "c \<noteq> name \<Longrightarrow> map_of (columns (set_column_scalar df name v)) c = map_of (columns df) c"
  by (simp_all add: set_column_scalar_def map_of_dict_update)

lemma init_fold_frame:
  "index (fold (\<lambda>col result_df.
             set_column_scalar (set_column_scalar result_df (col @ ''_ar'') CNone)
               (col @ ''_api'') CNone) cols r0) = index r0
   \<and> ((\<forall>col \<in> set cols. c \<noteq> col @ ''_ar'' \<and> c \<noteq> col @ ''_api'') \<longrightarrow>
        map_of (columns (fold (\<lambda>col result_df.
             set_column_scalar (set_column_scalar result_df (col @ ''_ar'') CNone)
               (col @ ''_api'') CNone) cols r0)) c = map_of (columns r0) c)"
  by (induction cols arbitrary: r0) (simp_all add: set_column_scalar_frame)

lemma init_result_df_frame:
  assumes "preserve_all_columns pl"
  shows "index (init_result_df pl df) = index df"
    and "\<forall>col \<in> set (columns_to_translate pl). c \<noteq> col @ ''_ar'' \<and> c \<noteq> col @ ''_api''
         \<Longrightarrow> map_of (columns (init_result_df pl df)) c = map_of (columns df) c"
  using assms init_fold_frame [of "columns_to_translate pl" df c]
  by (simp_all add: init_result_df_def)

lemma translate_columns_frame:
  assumes "translate_columns rt pl row idx cols (result_df, st) = (Inr out, st')"
    and "idx \<in> set (index result_df)"
    and "\<forall>col \<in> set cols. c \<noteq> col @ ''_ar'' \<and> c \<noteq> col @ ''_api''"
  shows "index out = index result_df \<and> map_of (columns out) c = map_of (columns result_df) c"
  using assms
proof (induction cols arbitrary: result_df st)
  case Nil
  then show ?case by simp
next
  case (Cons col cols)
  from Cons.prems(1) obtain v where v: "map_of row col = Some v"
    by (cases "map_of row col") auto
  obtain translation api_used err st1 where
    tr: "translate_with_retry rt pl (py_str v) MAX_RETRIES st = ((translation, api_used, err), st1)"
    by (metis prod_cases3 surj_pair)
  from Cons.prems(3) have c: "c \<noteq> col @ ''_ar''" "c \<noteq> col @ ''_api''"
    and rest: "\<forall>col \<in> set cols. c \<noteq> col @ ''_ar'' \<and> c \<noteq> col @ ''_api''"
    by simp_all
  show ?case
  proof (cases "translation \<noteq> None \<and> translation \<noteq> Some []")
    case True
    define r1 where "r1 = set_at (set_at result_df idx (col @ ''_ar'') (CStr (the translation)))
        idx (col @ ''_api'') (CStr (u api_used))"
    have i1: "index r1 = index result_df"
      using Cons.prems(2) by (simp add: r1_def set_at_frame)
    have m1: "map_of (columns r1) c = map_of (columns result_df) c"
      using Cons.prems(2) c by (simp add: r1_def set_at_frame)
    from Cons.prems(1) v tr True obtain st2 where
      "translate_columns rt pl row idx cols (r1, st2) = (Inr out, st')"
      by (simp add: r1_def)
    from Cons.IH [OF this] Cons.prems(2) rest i1 m1 show ?thesis
      by simp
  next
    case False
    with Cons.prems(1) v tr obtain st2 where
      "translate_columns rt pl row idx cols (result_df, st2) = (Inr out, st')"
      by auto
    from Cons.IH [OF this Cons.prems(2) rest] show ?thesis .
  qed
qed

lemma translate_rows_frame:
  assumes "translate_rows rt pl df idxs (result_df, st) = (Inr out, st')"
    and "\<forall>idx \<in> set idxs. idx \<in> set (index result_df)"
    and "\<forall>col \<in> set (columns_to_translate pl). c \<noteq> col @ ''_ar'' \<and> c \<noteq> col @ ''_api''"
  shows "index out = index result_df \<and> map_of (columns out) c = map_of (columns result_df) c"
  using assms(1,2)
proof (induction idxs arbitrary: result_df st)
  case Nil
  then show ?case by simp
next
  case (Cons idx idxs)
  from Cons.prems(1) obtain row where row: "iloc df idx = Inr row"
    by (cases "iloc df idx") auto
  obtain r1 st1 where tc:
    "translate_columns rt pl row idx (columns_to_translate pl) (result_df, st) = (r1, st1)"
    by (cases "translate_columns rt pl row idx (columns_to_translate pl) (result_df, st)")
  from Cons.prems(1) row tc obtain rdf1 where r1: "r1 = Inr rdf1"
    by (cases r1) auto
  from translate_columns_frame [OF tc [unfolded r1] _ assms(3)] Cons.prems(2)
  have f1: "index rdf1 = index result_df" "map_of (columns rdf1) c = map_of (columns result_df) c"
    by simp_all
  from Cons.prems(1) row tc r1 obtain st2 where
    "translate_rows rt pl df idxs (rdf1, st2) = (Inr out, st')"
    by simp
  from Cons.IH [OF this] Cons.prems(2) f1 show ?case
    by simp
qed

lemma align_range:
  assumes "length snap = m"
  shows "align (map int [0..<m]) snap (map int [0..<n])
           = map (\<lambda>i. if i < m then snap ! i else CNaN) [0..<n]"
proof -
  have "map_of (zip (map int [0..<m]) snap) (int i) = (if i < m then Some (snap ! i) else None)"
    for i
  proof (cases "i < m")
    case True
    have "map_of (zip (map int [0..<m]) snap) (map int [0..<m] ! i) = Some (snap ! i)"
      using True assms by (intro map_of_zip_nth) (simp_all add: distinct_map)
    with True show ?thesis by simp
  next
    case False
    then have "int i \<notin> set (map int [0..<m])"
      by auto
    then have "map_of (zip (map int [0..<m]) snap) (int i) = None"
      using assms by (simp add: map_of_zip_is_None)
    with False show ?thesis by simp
  qed
  then show ?thesis
    by (simp add: align_def)
qed


text \<open>
  C5 says that after a resume the original columns of the rows behind the checkpoint
  still hold the input's values. The code assigns each checkpoint column to the result
  as a whole column, and pandas aligns it on the row labels: for a dataset of \<open>n\<close> rows
  and a checkpoint of \<open>m\<close> rows, an original column that the checkpoint holds comes out
  with the snapshot's values in the rows below \<open>m\<close> and \<open>nan\<close> in every row from \<open>m\<close> on,
  whatever the input held there; the loop over the rows never writes it again.
\<close>

theorem resume_blanks_original_columns:
  assumes preserve: "preserve_all_columns pl"
    and original: "map_of (columns df) c = Some orig"
    and not_output: "\<forall>col \<in> set (columns_to_translate pl). c \<noteq> col @ ''_ar'' \<and> c \<noteq> col @ ''_api''"
    and found: "find_checkpoint (checkpoint_dir st) checkpoint_name = Some f"
    and content: "map_of (checkpoint_dir st) f = Some (Inr checkpoint_df)"
    and parts: "split_on CHR ''_'' (stem f) = part0 # part1 # parts"
    and count: "py_int part1 = Inr k" "0 \<le> k"
    and snapshot: "(c, snap) \<in> set (columns checkpoint_df)" "distinct (column_names checkpoint_df)"
      "length snap = m"
    and labels: "index df = map int [0..<n]" "0 < n" "index checkpoint_df = map int [0..<m]"
    and run: "translate_dataset rt pl df True checkpoint_name st = (Inr out, st')"
  shows "index out = index df
     \<and> map_of (columns out) c = Some (map (\<lambda>i. if i < m then snap ! i else CNaN) [0..<n])"
proof -
  define st0 where "st0 = st\<lparr>stats := (stats st)\<lparr>total := nrows df\<rparr>\<rparr>"
  define r0 where "r0 = init_result_df pl df"
  define r1 where "r1 = copy_columns checkpoint_df r0"
  have i0: "index r0 = map int [0..<n]"
    using preserve labels(1) by (simp add: r0_def init_result_df_frame)
  have m0: "map_of (columns r0) c = Some orig"
    using preserve not_output original by (simp add: r0_def init_result_df_frame)
  then have c0: "c \<in> set (column_names r0)"
    by (auto simp: column_names_def dest: map_of_SomeD intro: rev_image_eqI)
  have ne: "index r0 \<noteq> []"
    using i0 labels(2) by simp
  have load: "load_checkpoint (checkpoint_dir st0) r0 checkpoint_name = Inr (r1, k)"
    using found content parts count(1) by (simp add: load_checkpoint_def st0_def r1_def)
  from copy_columns_fold_frame [OF ne, of "index checkpoint_df" "columns checkpoint_df"]
  have i1: "index r1 = index r0"
    and m1: "map_of (columns r1) c = Some (align (index checkpoint_df) snap (index r0))"
    using snapshot(1,2) c0 unfolding r1_def copy_columns_def column_names_def by auto
  have m1': "map_of (columns r1) c = Some (map (\<lambda>i. if i < m then snap ! i else CNaN) [0..<n])"
    using m1 by (simp add: i0 labels(3) align_range [OF snapshot(3)])
  from run load have rows:
    "translate_rows rt pl df [k..int (nrows df) - 1] (r1, st0) = (Inr out, st')"
    by (simp add: translate_dataset_def Let_def st0_def [symmetric] r0_def [symmetric])
  have "\<forall>idx \<in> set [k..int (nrows df) - 1]. idx \<in> set (index r1)"
  proof
    fix idx
    assume "idx \<in> set [k..int (nrows df) - 1]"
    with count(2) have "0 \<le> idx" "idx < int n"
      by (simp_all add: nrows_def labels(1))
    then have eq: "idx = int (nat idx)" and lt: "nat idx < n"
      by simp_all
    from lt have "nat idx \<in> set [0..<n]"
      by simp
    then have "int (nat idx) \<in> int ` set [0..<n]"
      by (rule imageI)
    with eq have "idx \<in> set (map int [0..<n])"
      by simp
    then show "idx \<in> set (index r1)"
      by (simp only: i1 i0)
  qed
  from translate_rows_frame [OF rows this not_output] i1 i0 m1' labels(1) show ?thesis
    by simp
qed

lemma first_row_resume:
  "fst (translate_dataset arabic_runtime (nvidia_pipeline [''text''] False) two_rows True None
     (init_state None [(''checkpoint_1.csv'', Inr first_row_checkpoint)]))
   = Inr \<lparr>index = [0, 1],
          columns = [(''text'', [CStr (u ''Hello''), CNaN]),
                     (''text_ar'', [CStr marhaba, CStr marhaba]),
                     (''text_api'', [CStr (u ''nvidia''), CStr (u ''nvidia'')])]\<rparr>"
proof -
  have rows: "[1..int (nrows two_rows) - 1] = [1]"
    by (simp add: upto.simps nrows_def two_rows_def)
  have load: "load_checkpoint [(''checkpoint_1.csv'', Inr first_row_checkpoint)]
     \<lparr>index = [0, 1],
      columns = [(''text'', [CStr (u ''Hello''), CStr (u ''Hello'')]),
                 (''text_ar'', [CNone, CNone]), (''text_api'', [CNone, CNone])]\<rparr> None
   = Inr (\<lparr>index = [0, 1],
           columns = [(''text'', [CStr (u ''Hello''), CNaN]),
                      (''text_ar'', [CStr marhaba, CNaN]),
                      (''text_api'', [CStr (u ''nvidia''), CNaN])]\<rparr>, 1)"
    by (simp add: load_checkpoint_def frame_eval first_row_checkpoint_def find_1 stem_1 int_1)
  show ?thesis
    by (simp add: translate_dataset_def init_two_rows init_state_fields load rows
        second_row Let_def del: translate_rows.simps)
qed

theorem resume_blanks_original_columns_witness:
  "map_of (columns two_rows) ''text'' = Some [CStr (u ''Hello''), CStr (u ''Hello'')]
   \<and> (\<exists>out. fst (translate_dataset arabic_runtime (nvidia_pipeline [''text''] False) two_rows
                   True None (init_state None [(''checkpoint_1.csv'', Inr first_row_checkpoint)]))
              = Inr out
          \<and> map_of (columns out) ''text'' = Some [CStr (u ''Hello''), CNaN])"
proof -
  let ?st = "init_state None [(''checkpoint_1.csv'', Inr first_row_checkpoint)]"
  let ?pl = "nvidia_pipeline [''text''] False"
  obtain out st' where run: "translate_dataset arabic_runtime ?pl two_rows True None ?st
      = (Inr out, st')"
    using first_row_resume by (metis prod.collapse)
  have h: "preserve_all_columns ?pl"
    "map_of (columns two_rows) ''text'' = Some [CStr (u ''Hello''), CStr (u ''Hello'')]"
    "\<forall>col \<in> set (columns_to_translate ?pl). ''text'' \<noteq> col @ ''_ar'' \<and> ''text'' \<noteq> col @ ''_api''"
    "find_checkpoint (checkpoint_dir ?st) None = Some ''checkpoint_1.csv''"
    "map_of (checkpoint_dir ?st) ''checkpoint_1.csv'' = Some (Inr first_row_checkpoint)"
    "split_on CHR ''_'' (stem ''checkpoint_1.csv'') = ''checkpoint'' # ''1'' # []"
    "(''text'', [CStr (u ''Hello'')]) \<in> set (columns first_row_checkpoint)"
    "distinct (column_names first_row_checkpoint)"
    "length [CStr (u ''Hello'')] = 1"
    "index two_rows = map int [0..<2]" "index first_row_checkpoint = map int [0..<1]"
    by (simp_all add: nvidia_pipeline_fields two_rows_def init_state_fields find_1 stem_1
        first_row_checkpoint_def column_names_def upt_rec)
  have "map_of (columns out) ''text''
      = Some (map (\<lambda>i. if i < 1 then [CStr (u ''Hello'')] ! i else CNaN) [0..<2])"
    using resume_blanks_original_columns [OF h(1-6) int_1 _ h(7-10) _ h(11) run]
    by simp
  then have "map_of (columns out) ''text'' = Some [CStr (u ''Hello''), CNaN]"
    by (simp add: upt_rec)
  with run h(2) show ?thesis
    by simp
qed

section \<open>Properties of translate_dataset\<close>















end
